theory Spec2Isabelle
  imports Complex_Main "HOL-Library.Char_ord" "HOL-Library.List_Lexorder"
    "HOL-Library.Log_Nat"
begin

section \<open>Footprint and savings calculator (functions.py, lines 10-114)\<close>

text \<open>
  Python numbers of the calculator are modelled as \<^typ>\<open>real\<close>: the operations are the
  source's, in the source's order, evaluated exactly. IEEE-754 rounding of Python's
  \<open>float\<close> is not part of this model; it is added in the last subsection, where
  \<open>calculate_total_footprint\<close> is given a second time with every operation rounded.
\<close>

subsection \<open>The constant tables\<close>

text \<open>\<open>EMISSION_FACTORS\<close>: one definition per key of the dictionary.\<close>

definition electricity_kwh_co2 :: real where
  "electricity_kwh_co2 = 0.40"

definition car_km_co2 :: real where
  "car_km_co2 = 0.17"

definition flight_km_co2 :: real where
  "flight_km_co2 = 0.15"

definition waste_per_person_co2 :: real where
  "waste_per_person_co2 = 10"

text \<open>\<open>FINANCIAL_FACTORS\<close>: one definition per key of the dictionary.\<close>

definition electricity_cost_per_kwh_inr :: real where
  "electricity_cost_per_kwh_inr = 8.0"

definition car_cost_per_km_inr :: real where
  "car_cost_per_km_inr = 8.0"

definition diet_savings_vegetarian_inr :: real where
  "diet_savings_vegetarian_inr = 1500"

definition diet_savings_vegan_inr :: real where
  "diet_savings_vegan_inr = 2500"

definition benchmark_kwh :: real where
  "benchmark_kwh = 100"

definition benchmark_car_km :: real where
  "benchmark_car_km = 100"

subsection \<open>Footprint functions\<close>

definition calculate_energy_footprint :: "real \<Rightarrow> real" where
  "calculate_energy_footprint kwh_per_month = kwh_per_month * electricity_kwh_co2"

definition calculate_travel_footprint :: "real \<Rightarrow> real \<Rightarrow> real" where
  "calculate_travel_footprint car_km_month flight_km_year =
     (let car_co2 = car_km_month * car_km_co2;
          flight_co2 = (flight_km_year * flight_km_co2) / 12
      in car_co2 + flight_co2)"

text \<open>
  The \<open>if\<close>/\<open>elif\<close> chain of \<open>calculate_diet_footprint\<close>, with the string literals
  exactly as the source spells them.
\<close>

definition diet_factor :: "string \<Rightarrow> real" where
  "diet_factor diet_type =
     (if diet_type = ''vegan'' then 0.5
      else if diet_type = ''vegetarian'' then 1.2
      else if diet_type = ''omniverous'' then 2.5
      else 2.0)"

definition calculate_diet_footprint :: "string \<Rightarrow> real \<Rightarrow> real" where
  "calculate_diet_footprint diet_type meals_per_month =
     meals_per_month * diet_factor diet_type"

text \<open>The dictionary returned by \<open>calculate_total_footprint\<close>, one field per key.\<close>

record footprint_breakdown =
  Total :: real
  Energy :: real
  Travel :: real
  Diet :: real
  Waste :: real

definition calculate_total_footprint ::
  "real \<Rightarrow> real \<Rightarrow> real \<Rightarrow> real \<Rightarrow> footprint_breakdown" where
  "calculate_total_footprint energy travel diet waste_reduction_factor =
     (let waste_co2 = waste_per_person_co2 * waste_reduction_factor;
          total = energy + travel + diet + waste_co2
      in \<lparr>Total = total, Energy = energy, Travel = travel, Diet = diet,
          Waste = waste_co2\<rparr>)"

subsection \<open>Savings function\<close>

record savings_breakdown =
  TotalSavings :: real
  EnergySavings :: real
  TravelSavings :: real
  DietSavings :: real

definition calculate_financial_savings ::
  "real \<Rightarrow> real \<Rightarrow> string \<Rightarrow> savings_breakdown" where
  "calculate_financial_savings kwh car_km diet_type =
     (let user_energy_cost = kwh * electricity_cost_per_kwh_inr;
          benchmark_energy_cost = benchmark_kwh * electricity_cost_per_kwh_inr;
          energy_saving = max 0 (user_energy_cost - benchmark_energy_cost);
          user_travel_cost = car_km * car_cost_per_km_inr;
          benchmark_travel_cost = benchmark_car_km * car_cost_per_km_inr;
          travel_saving = max 0 (user_travel_cost - benchmark_travel_cost);
          diet_saving =
            (if diet_type = ''vegetarian'' then diet_savings_vegetarian_inr
             else if diet_type = ''vegan'' then diet_savings_vegan_inr
             else 0);
          total_potential_savings = energy_saving + travel_saving + diet_saving
      in \<lparr>TotalSavings = total_potential_savings, EnergySavings = energy_saving,
          TravelSavings = travel_saving, DietSavings = diet_saving\<rparr>)"

subsection \<open>Double-precision arithmetic\<close>

text \<open>
  A finite Python \<open>float\<close> (an IEEE-754 binary64 number) is modelled by the real number it
  denotes, and an arithmetic operation of Python by the exact operation followed by
  \<open>round_double\<close>, the rounding to the nearest number with a 53-bit significand, a tie
  going to the even significand. The exponent is not bounded: overflow to infinity and
  subnormal numbers are not modelled. A decimal literal of the source denotes the rounded
  value of its decimal.
\<close>

text \<open>The nearest integer, a tie going to the even one.\<close>

definition round_half_even :: "real \<Rightarrow> int" where
  "round_half_even y =
     (let n = \<lfloor>y\<rfloor>; r = y - of_int n
      in if r < 1 / 2 then n
         else if 1 / 2 < r then n + 1
         else if even n then n else n + 1)"

text \<open>
  The integer \<open>k\<close> with \<open>2 ^ k \<le> a < 2 ^ (k + 1)\<close>, for a positive \<open>a\<close>, computed from the
  bit length of the integer part of \<open>a\<close> or of \<open>1 / a\<close>.
\<close>

definition floor_log2 :: "real \<Rightarrow> int" where
  "floor_log2 a =
     (if 1 \<le> a then bitlen \<lfloor>a\<rfloor> - 1
      else let c = bitlen \<lfloor>1 / a\<rfloor>
           in if a * 2 powi (c - 1) = 1 then 1 - c else - c)"

text \<open>
  Rounding to a double: the significand \<open>x / 2 ^ e\<close>, with \<open>e\<close> chosen so that its absolute
  value lies between \<open>2 ^ 52\<close> and \<open>2 ^ 53\<close>, is rounded to an integer.
\<close>

definition round_double :: "real \<Rightarrow> real" where
  "round_double x =
     (if x = 0 then 0
      else let e = floor_log2 \<bar>x\<bar> - 52
           in of_int (round_half_even (x / 2 powi e)) * 2 powi e)"

text \<open>
  \<open>calculate_total_footprint\<close> on doubles: the product and the three additions of the
  source, left to right, each rounded.
\<close>

definition calculate_total_footprint_double ::
  "real \<Rightarrow> real \<Rightarrow> real \<Rightarrow> real \<Rightarrow> footprint_breakdown" where
  "calculate_total_footprint_double energy travel diet waste_reduction_factor =
     (let waste_co2 = round_double (waste_per_person_co2 * waste_reduction_factor);
          total = round_double (round_double (round_double (energy + travel) + diet)
                                + waste_co2)
      in \<lparr>Total = total, Energy = energy, Travel = travel, Diet = diet,
          Waste = waste_co2\<rparr>)"

section \<open>The persisted log (functions.py, lines 117-139)\<close>

subsection \<open>Python values read from the JSON file\<close>

text \<open>
  The exceptions that the streak functions can raise or catch.
\<close>

datatype py_error =
  JSONDecodeError | KeyError | AttributeError | TypeError | ValueError | OverflowError

text \<open>
  What \<open>json.load\<close> can return. The hashable values (\<open>None\<close>, booleans, integers, floats,
  strings) are the atoms; lists and dictionaries are not hashable. A float is carried by its
  exact value (Python compares numbers exactly, and no arithmetic is done on them here); NaN
  and the infinities are left out. A string is its sequence of characters, taken as ASCII.
  A dictionary is the sequence of its key-value pairs in the order of the file, where a later
  pair for a key replaces the value of an earlier one.
\<close>

datatype py_atom = PNone | PBool bool | PInt int | PFloat real | PStr string

datatype py_value = Atom py_atom | PList "py_value list" | PDict "(string \<times> py_value) list"

fun is_num :: "py_atom \<Rightarrow> bool" where
  "is_num (PBool b) = True"
| "is_num (PInt i) = True"
| "is_num (PFloat r) = True"
| "is_num a = False"

fun num_val :: "py_atom \<Rightarrow> real" where
  "num_val (PBool b) = (if b then 1 else 0)"
| "num_val (PInt i) = of_int i"
| "num_val (PFloat r) = r"
| "num_val a = 0"

fun is_str :: "py_atom \<Rightarrow> bool" where
  "is_str (PStr s) = True"
| "is_str a = False"

fun str_val :: "py_atom \<Rightarrow> string" where
  "str_val (PStr s) = s"
| "str_val a = []"

text \<open>Python's \<open>a == b\<close> on atoms: \<open>True == 1 == 1.0\<close>, and a string never equals a number.\<close>

fun py_eq :: "py_atom \<Rightarrow> py_atom \<Rightarrow> bool" where
  "py_eq PNone PNone = True"
| "py_eq (PStr s) (PStr t) = (s = t)"
| "py_eq a b = (is_num a \<and> is_num b \<and> num_val a = num_val b)"

text \<open>
  Python's \<open>a < b\<close> on atoms evaluates to \<open>True\<close>: numbers by value, strings by code point.
  (Between a string and a number, and for \<open>None\<close>, the comparison raises \<open>TypeError\<close>.)
\<close>

definition py_less :: "py_atom \<Rightarrow> py_atom \<Rightarrow> bool" where
  "py_less a b =
     (if is_num a \<and> is_num b then num_val a < num_val b
      else if is_str a \<and> is_str b then str_val a < str_val b
      else False)"


text \<open>
  \<open>set(iterable)\<close>: iterating a list gives its elements, a dictionary its keys, a string its
  characters; anything else is not iterable. An element that is a list or a dictionary is
  unhashable. Of several equal elements the set keeps the one inserted first. The order in
  which a Python set is iterated is unspecified; the model lists the elements in the order of
  insertion, and the only consumer, \<open>sorted\<close>, does not depend on it.
\<close>

fun py_iter :: "py_value \<Rightarrow> py_error + py_value list" where
  "py_iter (PList vs) = Inr vs"
| "py_iter (PDict kvs) = Inr (map (\<lambda>kv. Atom (PStr (fst kv))) kvs)"
| "py_iter (Atom (PStr s)) = Inr (map (\<lambda>c. Atom (PStr [c])) s)"
| "py_iter (Atom a) = Inl TypeError"

fun hash_all :: "py_value list \<Rightarrow> py_error + py_atom list" where
  "hash_all [] = Inr []"
| "hash_all (Atom a # vs) =
     (case hash_all vs of Inl e \<Rightarrow> Inl e | Inr as \<Rightarrow> Inr (a # as))"
| "hash_all (v # vs) = Inl TypeError"

fun py_dedup :: "py_atom list \<Rightarrow> py_atom list" where
  "py_dedup [] = []"
| "py_dedup (x # xs) = x # py_dedup (filter (\<lambda>y. \<not> py_eq x y) xs)"

definition py_set :: "py_value \<Rightarrow> py_error + py_atom list" where
  "py_set v =
     (case py_iter v of
        Inl e \<Rightarrow> Inl e
      | Inr vs \<Rightarrow> (case hash_all vs of Inl e \<Rightarrow> Inl e | Inr as \<Rightarrow> Inr (py_dedup as)))"

text \<open>
  \<open>sorted(xs)\<close> and \<open>xs.sort()\<close> on atoms: a stable sort by \<open><\<close>. With at most one element
  nothing is compared. Otherwise the sort succeeds when all elements are numbers or all are
  strings, and raises \<open>TypeError\<close> at the first comparison across these (or with \<open>None\<close>).
\<close>

definition py_sorted :: "py_atom list \<Rightarrow> py_error + py_atom list" where
  "py_sorted xs =
     (if length xs \<le> 1 then Inr xs
      else if list_all is_num xs then Inr (sort_key num_val xs)
      else if list_all is_str xs then Inr (sort_key str_val xs)
      else Inl TypeError)"

text \<open>\<open>data.get(key, default)\<close>: only a dictionary has the method.\<close>

fun py_get :: "py_value \<Rightarrow> string \<Rightarrow> py_value \<Rightarrow> py_error + py_value" where
  "py_get (PDict kvs) k dflt =
     Inr (case map_of (rev kvs) k of None \<Rightarrow> dflt | Some v \<Rightarrow> v)"
| "py_get v k dflt = Inl AttributeError"

subsection \<open>The data file\<close>

text \<open>
  The state of \<open>DATA_FILE\<close>: absent (\<open>None\<close>), or present with a content that is either text
  \<open>json.load\<close> rejects (\<open>Malformed\<close>) or a JSON document, given by the value \<open>json.load\<close>
  returns for it. \<open>json.dump\<close> followed by \<open>json.load\<close> gives back the value written.
\<close>

datatype file_content = Malformed | Document py_value

type_synonym store = "file_content option"

definition json_load :: "file_content \<Rightarrow> py_error + py_value" where
  "json_load c = (case c of Malformed \<Rightarrow> Inl JSONDecodeError | Document v \<Rightarrow> Inr v)"

text \<open>
  \<open>load_streak_dates\<close>: the body of the \<open>try\<close> is \<open>load_body\<close>; the handler turns
  \<open>JSONDecodeError\<close> and \<open>KeyError\<close> into the empty list and lets every other exception pass.
\<close>

definition load_body :: "file_content \<Rightarrow> py_error + py_atom list" where
  "load_body c =
     (case json_load c of
        Inl e \<Rightarrow> Inl e
      | Inr data \<Rightarrow>
          (case py_get data ''logged_dates'' (PList []) of
             Inl e \<Rightarrow> Inl e
           | Inr v \<Rightarrow> (case py_set v of Inl e \<Rightarrow> Inl e | Inr s \<Rightarrow> py_sorted s)))"

definition load_streak_dates :: "store \<Rightarrow> py_error + py_atom list" where
  "load_streak_dates st =
     (case st of
        None \<Rightarrow> Inr []
      | Some c \<Rightarrow>
          (case load_body c of
             Inl e \<Rightarrow> (if e = JSONDecodeError \<or> e = KeyError then Inr [] else Inl e)
           | Inr dates \<Rightarrow> Inr dates))"

text \<open>
  What \<open>json.dump({'logged_dates': dates}, f, indent=4)\<close> leaves in the file: a record with
  the one field \<open>logged_dates\<close>.
\<close>

definition dump_dates :: "py_atom list \<Rightarrow> file_content" where
  "dump_dates dates = Document (PDict [(''logged_dates'', PList (map Atom dates))])"


section \<open>Streaks (functions.py, lines 141-190)\<close>

subsection \<open>Calendar dates\<close>

text \<open>
  A \<open>datetime.date\<close> is modelled by its proleptic Gregorian ordinal (\<open>date.toordinal()\<close>):
  day 1 is 0001-01-01 (\<open>date.min\<close>) and day 3652059 is 9999-12-31 (\<open>date.max\<close>). Equality,
  hashing and order of dates are those of the ordinals, and the difference of two dates in
  days is the difference of their ordinals. The functions below are those of Python's
  \<open>datetime\<close> module.
\<close>

type_synonym date = int

definition date_min :: date where
  "date_min = 1"

definition date_max :: date where
  "date_max = 3652059"

definition is_leap :: "int \<Rightarrow> bool" where
  "is_leap year = (year mod 4 = 0 \<and> (year mod 100 \<noteq> 0 \<or> year mod 400 = 0))"

definition days_before_year :: "int \<Rightarrow> int" where
  "days_before_year year =
     (let y = year - 1 in y * 365 + y div 4 - y div 100 + y div 400)"

definition days_in_month :: "int \<Rightarrow> int \<Rightarrow> int" where
  "days_in_month year month =
     (if month = 2 \<and> is_leap year then 29
      else [31, 28, 31, 30, 31, 30, 31, 31, 30, 31, 30, 31] ! nat (month - 1))"

definition days_before_month :: "int \<Rightarrow> int \<Rightarrow> int" where
  "days_before_month year month =
     [0, 31, 59, 90, 120, 151, 181, 212, 243, 273, 304, 334] ! nat (month - 1)
     + (if month > 2 \<and> is_leap year then 1 else 0)"

definition ymd2ord :: "int \<Rightarrow> int \<Rightarrow> int \<Rightarrow> date" where
  "ymd2ord year month day = days_before_year year + days_before_month year month + day"

text \<open>The constructor \<open>date(year, month, day)\<close> with its range checks.\<close>

definition new_date :: "int \<Rightarrow> int \<Rightarrow> int \<Rightarrow> py_error + date" where
  "new_date year month day =
     (if \<not> (1 \<le> year \<and> year \<le> 9999) then Inl ValueError
      else if \<not> (1 \<le> month \<and> month \<le> 12) then Inl ValueError
      else if \<not> (1 \<le> day \<and> day \<le> days_in_month year month) then Inl ValueError
      else Inr (ymd2ord year month day))"

text \<open>\<open>d - timedelta(days=1)\<close>: there is no date before \<open>date.min\<close>.\<close>

definition minus_one_day :: "date \<Rightarrow> py_error + date" where
  "minus_one_day d = (if d \<le> date_min then Inl OverflowError else Inr (d - 1))"

subsection \<open>Parsing a date string\<close>

text \<open>
  \<open>datetime.strptime(s, '%Y-%m-%d').date()\<close>. The format compiles to the regular expression
  \<^verbatim>\<open>(?P<Y>\d\d\d\d)-(?P<m>1[0-2]|0[1-9]|[1-9])-(?P<d>3[01]|[12]\d|0[1-9]|[1-9]| [1-9])\<close>,
  which is matched at the start of the string; text left over after the match, a year 0, and a
  day beyond the month's length are a \<open>ValueError\<close>. For the month, the first alternative that
  matches is the only one after which a hyphen can follow, so no backtracking is needed.
  Digits are the ASCII digits.
\<close>

definition is_digit :: "char \<Rightarrow> bool" where
  "is_digit c = (c \<in> set ''0123456789'')"

definition digit_val :: "char \<Rightarrow> int" where
  "digit_val c = int (of_char c) - 48"

fun match_month :: "string \<Rightarrow> (int \<times> string) option" where
  "match_month (a # b # r) =
     (if a = CHR ''1'' \<and> b \<in> set ''012'' then Some (10 + digit_val b, r)
      else if a = CHR ''0'' \<and> b \<in> set ''123456789'' then Some (digit_val b, r)
      else if a \<in> set ''123456789'' then Some (digit_val a, b # r)
      else None)"
| "match_month [a] = (if a \<in> set ''123456789'' then Some (digit_val a, []) else None)"
| "match_month [] = None"

fun match_day :: "string \<Rightarrow> (int \<times> string) option" where
  "match_day (a # b # r) =
     (if a = CHR ''3'' \<and> b \<in> set ''01'' then Some (30 + digit_val b, r)
      else if a \<in> set ''12'' \<and> is_digit b then Some (10 * digit_val a + digit_val b, r)
      else if a = CHR ''0'' \<and> b \<in> set ''123456789'' then Some (digit_val b, r)
      else if a \<in> set ''123456789'' then Some (digit_val a, b # r)
      else if a = CHR '' '' \<and> b \<in> set ''123456789'' then Some (digit_val b, r)
      else None)"
| "match_day [a] = (if a \<in> set ''123456789'' then Some (digit_val a, []) else None)"
| "match_day [] = None"

fun strptime_ymd :: "string \<Rightarrow> py_error + date" where
  "strptime_ymd (y1 # y2 # y3 # y4 # h # rest) =
     (if is_digit y1 \<and> is_digit y2 \<and> is_digit y3 \<and> is_digit y4 \<and> h = CHR ''-'' then
        (case match_month rest of
           None \<Rightarrow> Inl ValueError
         | Some (month, rest1) \<Rightarrow>
             (case rest1 of
                [] \<Rightarrow> Inl ValueError
              | h1 # rest2 \<Rightarrow>
                  if h1 = CHR ''-'' then
                    (case match_day rest2 of
                       None \<Rightarrow> Inl ValueError
                     | Some (day, rest3) \<Rightarrow>
                         if rest3 = [] then
                           new_date
                             (1000 * digit_val y1 + 100 * digit_val y2
                              + 10 * digit_val y3 + digit_val y4)
                             month day
                         else Inl ValueError)
                  else Inl ValueError))
      else Inl ValueError)"
| "strptime_ymd s = Inl ValueError"

text \<open>The first argument of \<open>strptime\<close> must be a string.\<close>

fun parse_date :: "py_atom \<Rightarrow> py_error + date" where
  "parse_date (PStr s) = strptime_ymd s"
| "parse_date a = Inl TypeError"

text \<open>The comprehension over the logged strings: the first string that fails raises.\<close>

fun parse_dates :: "py_atom list \<Rightarrow> py_error + date list" where
  "parse_dates [] = Inr []"
| "parse_dates (a # as) =
     (case parse_date a of
        Inl e \<Rightarrow> Inl e
      | Inr d \<Rightarrow> (case parse_dates as of Inl e \<Rightarrow> Inl e | Inr ds \<Rightarrow> Inr (d # ds)))"

subsection \<open>Date strings as the app writes them\<close>

text \<open>
  app.py logs \<open>datetime.now().strftime('%Y-%m-%d')\<close>: ten characters, the four digits of
  the year, the two of the month and the two of the day, padded with zeros and separated by
  hyphens.
\<close>

definition zero_padded :: "string \<Rightarrow> bool" where
  "zero_padded s =
     (length s = 10 \<and> s ! 4 = CHR ''-'' \<and> s ! 7 = CHR ''-''
      \<and> list_all (\<lambda>i. is_digit (s ! i)) [0, 1, 2, 3, 5, 6, 8, 9])"

text \<open>The numbers that two digits and four digits write.\<close>

definition field2 :: "char \<Rightarrow> char \<Rightarrow> int" where
  "field2 a b = 10 * digit_val a + digit_val b"

definition field4 :: "char \<Rightarrow> char \<Rightarrow> char \<Rightarrow> char \<Rightarrow> int" where
  "field4 a b c d = 1000 * digit_val a + 100 * digit_val b + 10 * digit_val c + digit_val d"

subsection \<open>Longest streak\<close>

text \<open>
  The loop of \<open>calculate_longest_streak\<close> over the adjacent pairs of \<open>unique_dates\<close>, with the
  loop variables \<open>longest_streak\<close> and \<open>current_length\<close> passed along and returned.
\<close>

fun streak_scan :: "date list \<Rightarrow> nat \<Rightarrow> nat \<Rightarrow> nat \<times> nat" where
  "streak_scan (a # b # rest) longest_streak current_length =
     (if b - a = 1 then streak_scan (b # rest) longest_streak (current_length + 1)
      else streak_scan (b # rest) (max longest_streak current_length) 1)"
| "streak_scan ds longest_streak current_length = (longest_streak, current_length)"

definition calculate_longest_streak :: "py_atom list \<Rightarrow> py_error + nat" where
  "calculate_longest_streak dates_str =
     (if dates_str = [] then Inr 0
      else
        (case parse_dates dates_str of
           Inl e \<Rightarrow> Inl e
         | Inr ds \<Rightarrow>
             (let unique_dates = sort (remdups ds);
                  (longest_streak, current_length) = streak_scan unique_dates 0 1
              in Inr (max longest_streak current_length))))"

subsection \<open>Current streak\<close>

text \<open>
  The \<open>while\<close> loop of \<open>calculate_current_streak\<close>. Stepping back from \<open>date.min\<close> raises
  \<open>OverflowError\<close>, so the loop makes its recursive call only from a later day.
\<close>

function streak_loop :: "date list \<Rightarrow> date \<Rightarrow> nat \<Rightarrow> py_error + nat" where
  "streak_loop all_dates check_date current_streak =
     (if check_date \<in> set all_dates then
        (case minus_one_day check_date of
           Inl e \<Rightarrow> Inl e
         | Inr d \<Rightarrow> streak_loop all_dates d (current_streak + 1))
      else Inr current_streak)"
  by pat_completeness auto
termination
  by (relation "measure (\<lambda>(all_dates, check_date, current_streak). nat check_date)")
    (auto simp: minus_one_day_def date_min_def split: if_splits)

declare streak_loop.simps [simp del]

text \<open>
  The part of \<open>calculate_current_streak\<close> after the choice of \<open>check_date\<close>: the loop, then
  the longest streak, then the pair.
\<close>

definition count_from :: "py_atom list \<Rightarrow> date list \<Rightarrow> date \<Rightarrow> py_error + nat \<times> nat" where
  "count_from logged_dates_str all_dates check_date =
     (case streak_loop all_dates check_date 0 of
        Inl e \<Rightarrow> Inl e
      | Inr current_streak \<Rightarrow>
          (case calculate_longest_streak logged_dates_str of
             Inl e \<Rightarrow> Inl e
           | Inr longest_streak \<Rightarrow> Inr (current_streak, longest_streak)))"

text \<open>
  \<open>calculate_current_streak\<close>, with the file and the clock (\<open>datetime.now().date()\<close>) as
  arguments.
\<close>

definition calculate_current_streak :: "store \<Rightarrow> date \<Rightarrow> py_error + nat \<times> nat" where
  "calculate_current_streak st today =
     (case load_streak_dates st of
        Inl e \<Rightarrow> Inl e
      | Inr logged_dates_str \<Rightarrow>
          if logged_dates_str = [] then Inr (0, 0)
          else
            (case parse_dates logged_dates_str of
               Inl e \<Rightarrow> Inl e
             | Inr all_dates \<Rightarrow>
                 (case minus_one_day today of
                    Inl e \<Rightarrow> Inl e
                  | Inr yesterday \<Rightarrow>
                      if today \<in> set all_dates then
                        count_from logged_dates_str all_dates today
                      else if yesterday \<in> set all_dates then
                        count_from logged_dates_str all_dates yesterday
                      else
                        (case calculate_longest_streak logged_dates_str of
                           Inl e \<Rightarrow> Inl e
                         | Inr longest_streak \<Rightarrow> Inr (0, longest_streak)))))"

section \<open>Runs of logged days, in the words of the specification\<close>

text \<open>
  The words of the specification: \<open>all_logged D d n\<close> says that the \<open>n\<close> calendar-consecutive
  days starting at \<open>d\<close> are all in the set \<open>D\<close>, a run of length \<open>n\<close>;
  \<open>streak_ending_at D d n\<close> says that the \<open>n\<close> consecutive days ending at \<open>d\<close> are all in \<open>D\<close>
  and the day before them is the first missing day.
\<close>

definition all_logged :: "date set \<Rightarrow> date \<Rightarrow> nat \<Rightarrow> bool" where
  "all_logged D d n = (\<forall>i \<in> {0..<n}. d + int i \<in> D)"

definition streak_ending_at :: "date set \<Rightarrow> date \<Rightarrow> nat \<Rightarrow> bool" where
  "streak_ending_at D d n = ((\<forall>i \<in> {0..<n}. d - int i \<in> D) \<and> d - int n \<notin> D)"

section \<open>Properties of the calculator\<close>

text \<open>
  C3, as the source has it: the factor 2.5 belongs to the string \<open>omniverous\<close> (the spelling of
  the source, which the selection box of app.py uses as well); vegan gives 0.5 per meal,
  vegetarian 1.2, and every other string, \<open>omnivorous\<close> among them, gives 2.0 per meal.
\<close>

theorem diet_footprint_factors:
  "calculate_diet_footprint ''vegan'' m = 0.5 * m
   \<and> calculate_diet_footprint ''vegetarian'' m = 1.2 * m
   \<and> calculate_diet_footprint ''omniverous'' m = 2.5 * m
   \<and> (d \<noteq> ''vegan'' \<and> d \<noteq> ''vegetarian'' \<and> d \<noteq> ''omniverous''
        \<longrightarrow> calculate_diet_footprint d m = 2.0 * m)"
  by (simp add: calculate_diet_footprint_def diet_factor_def)

theorem diet_footprint_factors_witness:
  "calculate_diet_footprint ''vegan'' 90 = 45
   \<and> calculate_diet_footprint ''vegetarian'' 90 = 108
   \<and> calculate_diet_footprint ''omniverous'' 90 = 225
   \<and> calculate_diet_footprint ''other'' 90 = 180"
  using diet_footprint_factors [of 90 "''other''"] by simp

text \<open>
  C3 as the specification words it fails: the string \<open>omnivorous\<close> is not one the source
  recognises, so 90 meals give 180 and not 225.
\<close>

theorem diet_footprint_omnivorous_counterexample:
  "calculate_diet_footprint ''omnivorous'' 90 = 180
   \<and> calculate_diet_footprint ''omnivorous'' 90 \<noteq> 2.5 * 90"
  by (simp add: calculate_diet_footprint_def diet_factor_def)

text \<open>
  C5: the energy and travel savings are the excess cost over the benchmark clamped at zero,
  the diet saving is the fixed lookup, the total is their sum, and no saving is negative.
\<close>

theorem financial_savings_spec:
  "EnergySavings (calculate_financial_savings kwh car_km diet) = max 0 (kwh * 8.0 - 100 * 8.0)
   \<and> TravelSavings (calculate_financial_savings kwh car_km diet)
       = max 0 (car_km * 8.0 - 100 * 8.0)
   \<and> DietSavings (calculate_financial_savings kwh car_km diet)
       = (if diet = ''vegetarian'' then 1500 else if diet = ''vegan'' then 2500 else 0)
   \<and> TotalSavings (calculate_financial_savings kwh car_km diet)
       = EnergySavings (calculate_financial_savings kwh car_km diet)
         + TravelSavings (calculate_financial_savings kwh car_km diet)
         + DietSavings (calculate_financial_savings kwh car_km diet)
   \<and> 0 \<le> EnergySavings (calculate_financial_savings kwh car_km diet)
   \<and> 0 \<le> TravelSavings (calculate_financial_savings kwh car_km diet)
   \<and> 0 \<le> DietSavings (calculate_financial_savings kwh car_km diet)"
  by (simp add: calculate_financial_savings_def Let_def electricity_cost_per_kwh_inr_def
      car_cost_per_km_inr_def benchmark_kwh_def benchmark_car_km_def
      diet_savings_vegetarian_inr_def diet_savings_vegan_inr_def)

theorem financial_savings_spec_witness:
  "EnergySavings (calculate_financial_savings 250 50 ''vegetarian'') = 1200
   \<and> TravelSavings (calculate_financial_savings 250 50 ''vegetarian'') = 0
   \<and> DietSavings (calculate_financial_savings 250 50 ''vegetarian'') = 1500
   \<and> TotalSavings (calculate_financial_savings 250 50 ''vegetarian'') = 2700"
  using financial_savings_spec [of 250 50 "''vegetarian''"] by simp

text \<open>
  C6: the waste component is ten times the waste reduction factor, the other three components
  are the inputs unchanged, and the total is the sum of the four.
\<close>

theorem total_footprint_breakdown:
  "Waste (calculate_total_footprint e t d w) = 10 * w
   \<and> Energy (calculate_total_footprint e t d w) = e
   \<and> Travel (calculate_total_footprint e t d w) = t
   \<and> Diet (calculate_total_footprint e t d w) = d
   \<and> Total (calculate_total_footprint e t d w) = e + t + d + 10 * w"
  by (simp add: calculate_total_footprint_def Let_def waste_per_person_co2_def)

theorem total_footprint_breakdown_witness:
  "Waste (calculate_total_footprint 100 97.5 108 0.8) = 8
   \<and> Energy (calculate_total_footprint 100 97.5 108 0.8) = 100
   \<and> Travel (calculate_total_footprint 100 97.5 108 0.8) = 97.5
   \<and> Diet (calculate_total_footprint 100 97.5 108 0.8) = 108
   \<and> Total (calculate_total_footprint 100 97.5 108 0.8) = 313.5"
  using total_footprint_breakdown [of 100 "97.5" 108 "0.8"] by simp

subsection \<open>Rounding to a double\<close>

lemma round_half_even_error: "\<bar>of_int (round_half_even y) - y\<bar> \<le> 1 / 2"
  unfolding round_half_even_def Let_def by (auto; linarith)

lemma floor_log2_bounds:
  assumes "0 < a"
  shows "2 powi (floor_log2 a) \<le> a \<and> a < 2 powi (floor_log2 a + 1)"
proof (cases "1 \<le> a")
  case True
  define n where "n = \<lfloor>a\<rfloor>"
  have n: "0 < n" "of_int n \<le> a" "a < of_int n + 1"
    using True by (simp_all add: n_def)
  define b where "b = bitlen n"
  have b: "(2::int) ^ nat (b - 1) \<le> n" "n < 2 ^ nat b"
    using bitlen_bounds [OF n(1)] by (simp_all add: b_def)
  have b1: "1 \<le> b"
    using n(1) by (simp add: b_def bitlen_alt_def)
  have fl: "floor_log2 a = b - 1"
    using True by (simp add: floor_log2_def n_def b_def)
  have "(2::real) powi (b - 1) = 2 ^ nat (b - 1)"
    using b1 by (simp add: power_int_def)
  also have "\<dots> = of_int (2 ^ nat (b - 1))" by simp
  also have "\<dots> \<le> of_int n" using b(1) by (simp only: of_int_le_iff)
  finally have lo: "2 powi (b - 1) \<le> a" using n(2) by linarith
  have "n + 1 \<le> 2 ^ nat b" using b(2) by simp
  hence "(of_int (n + 1) :: real) \<le> of_int (2 ^ nat b)" by (simp only: of_int_le_iff)
  hence "of_int n + 1 \<le> (2::real) ^ nat b" by simp
  also have "\<dots> = 2 powi b" using b1 by (simp add: power_int_def)
  finally have hi: "a < 2 powi b" using n(3) by linarith
  show ?thesis using lo hi by (simp add: fl)
next
  case False
  hence a1: "a < 1" by simp
  define n where "n = \<lfloor>1 / a\<rfloor>"
  have ia: "1 < 1 / a" using assms a1 by simp
  have n: "0 < n" "of_int n \<le> 1 / a" "1 / a < of_int n + 1"
    using ia by (simp_all add: n_def)
  define c where "c = bitlen n"
  have c: "(2::int) ^ nat (c - 1) \<le> n" "n < 2 ^ nat c"
    using bitlen_bounds [OF n(1)] by (simp_all add: c_def)
  have c1: "1 \<le> c"
    using n(1) by (simp add: c_def bitlen_alt_def)
  have "(2::real) powi (c - 1) = 2 ^ nat (c - 1)"
    using c1 by (simp add: power_int_def)
  also have "\<dots> = of_int (2 ^ nat (c - 1))" by simp
  also have "\<dots> \<le> of_int n" using c(1) by (simp only: of_int_le_iff)
  finally have lo: "2 powi (c - 1) \<le> 1 / a" using n(2) by linarith
  have "n + 1 \<le> 2 ^ nat c" using c(2) by simp
  hence "(of_int (n + 1) :: real) \<le> of_int (2 ^ nat c)" by (simp only: of_int_le_iff)
  hence "of_int n + 1 \<le> (2::real) ^ nat c" by simp
  also have "\<dots> = 2 powi c" using c1 by (simp add: power_int_def)
  finally have hi: "1 / a < 2 powi c" using n(3) by linarith
  have p1: "0 < (2::real) powi (c - 1)" and p2: "0 < (2::real) powi c" by simp_all
  have le: "a * 2 powi (c - 1) \<le> 1"
    using lo assms by (simp add: field_simps)
  have gt: "1 < a * 2 powi c"
    using hi assms by (simp add: field_simps)
  have m1: "(2::real) powi (- c) = 1 / 2 powi c" by (simp add: power_int_minus_divide)
  have m2: "(2::real) powi (1 - c) = 1 / 2 powi (c - 1)"
    using power_int_minus_divide [of "2::real" "c - 1"] by simp
  have m3: "(2::real) powi (2 - c) = 2 / 2 powi (c - 1)"
    using power_int_add_1 [of "2::real" "1 - c"] m2 by (simp add: algebra_simps)
  have lo': "2 powi (- c) < a" using gt p2 by (simp add: m1 field_simps)
  show ?thesis
  proof (cases "a * 2 powi (c - 1) = 1")
    case True
    have fl: "floor_log2 a = 1 - c"
      using a1 True by (simp add: floor_log2_def n_def c_def)
    have "2 powi (1 - c) \<le> a" using True p1 by (simp add: m2 field_simps)
    moreover have "a < 2 powi (2 - c)" using True p1 by (simp add: m3 field_simps)
    moreover have "1 - c + 1 = 2 - c" by simp
    ultimately show ?thesis unfolding fl by (simp only:)
  next
    case neq: False
    have fl: "floor_log2 a = - c"
      using a1 neq by (simp add: floor_log2_def n_def c_def Let_def)
    have "a * 2 powi (c - 1) < 1" using le neq by simp
    hence "a < 2 powi (1 - c)" using p1 by (simp add: m2 field_simps)
    moreover have "- c + 1 = 1 - c" by simp
    moreover have "2 powi (- c) \<le> a" using lo' by simp
    ultimately show ?thesis unfolding fl by (simp only:)
  qed
qed

lemma floor_log2_unique:
  assumes "0 < a" "2 powi k \<le> a" "a < 2 powi (k + 1)"
  shows "floor_log2 a = k"
proof -
  let ?f = "floor_log2 a"
  have b: "2 powi ?f \<le> a" "a < 2 powi (?f + 1)"
    using floor_log2_bounds [OF assms(1)] by simp_all
  have "(2::real) powi k < 2 powi (?f + 1)" using assms(2) b(2) by linarith
  hence "k < ?f + 1"
    by (metis linorder_not_less power_int_increasing one_le_numeral)
  moreover have "(2::real) powi ?f < 2 powi (k + 1)" using assms(3) b(1) by linarith
  hence "?f < k + 1"
    by (metis linorder_not_less power_int_increasing one_le_numeral)
  ultimately show ?thesis by simp
qed

text \<open>The relative error of one rounding is at most \<open>2 ^ - 53\<close>.\<close>

lemma round_double_error: "\<bar>round_double x - x\<bar> \<le> \<bar>x\<bar> / 2 ^ 53"
proof (cases "x = 0")
  case True
  thus ?thesis by (simp add: round_double_def)
next
  case False
  define e where "e = floor_log2 \<bar>x\<bar> - 52"
  define p :: real where "p = 2 powi e"
  define y where "y = x / p"
  have p: "0 < p" by (simp add: p_def)
  have pos: "0 < \<bar>x\<bar>" using False by simp
  have "(2::real) powi (e + 52) = 2 ^ 52 * 2 powi e"
    using power_int_add [of "2::real" e 52] by simp
  moreover have "floor_log2 \<bar>x\<bar> = e + 52" by (simp add: e_def)
  ultimately have lo: "2 ^ 52 * p \<le> \<bar>x\<bar>"
    using floor_log2_bounds [OF pos] by (simp add: p_def)
  have x: "x = y * p" using p by (simp add: y_def)
  have ay: "\<bar>x\<bar> = \<bar>y\<bar> * p" using p by (simp add: x abs_mult)
  have "2 ^ 52 * p \<le> \<bar>y\<bar> * p" using lo ay by simp
  hence y52: "2 ^ 52 \<le> \<bar>y\<bar>" using p by simp
  have r: "round_double x = of_int (round_half_even y) * p"
    using False by (simp add: round_double_def Let_def e_def p_def y_def)
  have "round_double x - x = of_int (round_half_even y) * p - y * p"
    by (simp only: r x [symmetric])
  hence "round_double x - x = (of_int (round_half_even y) - y) * p"
    by (simp add: algebra_simps)
  hence "\<bar>round_double x - x\<bar> = \<bar>of_int (round_half_even y) - y\<bar> * p"
    using p by (simp add: abs_mult)
  also have "\<dots> \<le> (1 / 2) * p"
    using round_half_even_error [of y] p by (intro mult_right_mono) simp_all
  also have "\<dots> \<le> (\<bar>y\<bar> / 2 ^ 53) * p"
    using y52 p by (intro mult_right_mono) simp_all
  also have "\<dots> = \<bar>x\<bar> / 2 ^ 53" by (simp add: ay)
  finally show ?thesis .
qed

text \<open>
  Rounding a number of known magnitude: with \<open>k\<close> places after the binary point, the
  significand is \<open>x * 2 ^ k\<close>.
\<close>

lemma round_double_scaled:
  assumes "2 ^ 52 \<le> \<bar>x\<bar> * 2 ^ k" "\<bar>x\<bar> * 2 ^ k < 2 ^ 53"
  shows "round_double x = of_int (round_half_even (x * 2 ^ k)) / 2 ^ k"
proof -
  have nz: "x \<noteq> 0" using assms(1) by auto
  have q: "(2::real) powi (- int k) = 1 / 2 ^ k"
    by (simp add: power_int_minus_divide)
  have a: "(2::real) powi (52 - int k) = 2 ^ 52 / 2 ^ k"
    using power_int_add [of "2::real" 52 "- int k"] by (simp add: q)
  have b: "(2::real) powi (52 - int k + 1) = 2 ^ 53 / 2 ^ k"
    using power_int_add [of "2::real" 53 "- int k"] by (simp add: q)
  have "floor_log2 \<bar>x\<bar> = 52 - int k"
  proof (rule floor_log2_unique)
    show "0 < \<bar>x\<bar>" using nz by simp
    show "2 powi (52 - int k) \<le> \<bar>x\<bar>"
      unfolding a using assms(1) by (simp add: field_simps)
    show "\<bar>x\<bar> < 2 powi (52 - int k + 1)"
      unfolding b using assms(2) by (simp add: field_simps)
  qed
  hence "floor_log2 \<bar>x\<bar> - 52 = - int k" by simp
  thus ?thesis using nz by (simp add: round_double_def Let_def q)
qed

text \<open>The literal \<open>0.8\<close>, and the two waste components: \<open>10 * 0.8\<close> is \<open>8.0\<close> exactly.\<close>

lemma round_double_0_8: "round_double 0.8 = 7205759403792794 / 2 ^ 53"
proof -
  have "round_half_even (0.8 * 2 ^ 53) = 7205759403792794"
    by (simp add: round_half_even_def Let_def)
  thus ?thesis using round_double_scaled [of "0.8" 53] by simp
qed

lemma waste_recycling: "round_double (10 * round_double 0.8) = 8"
proof -
  have "round_half_even (10 * (7205759403792794 / 2 ^ 53) * 2 ^ 49) = 4503599627370496"
    by (simp add: round_half_even_def Let_def)
  hence "round_double (10 * (7205759403792794 / 2 ^ 53)) = 8"
    using round_double_scaled [of "10 * (7205759403792794 / 2 ^ 53)" 49] by simp
  thus ?thesis by (simp only: round_double_0_8)
qed

lemma waste_no_recycling: "round_double 10 = 10"
proof -
  have "round_half_even (10 * 2 ^ 49) = 5629499534213120"
    by (simp add: round_half_even_def Let_def)
  thus ?thesis using round_double_scaled [of 10 49] by simp
qed

text \<open>
  Three roundings separate \<open>round_double (s + 8)\<close> from
  \<open>round_double (round_double (s + 10) - 2)\<close>; each has relative error at most \<open>2 ^ - 53\<close>.
\<close>

lemma recycling_rounding_bound:
  fixes s :: real
  defines "A \<equiv> round_double (s + 8)"
  defines "B \<equiv> round_double (s + 10)"
  shows "\<bar>A - round_double (B - 2)\<bar> \<le> (\<bar>s\<bar> + 10) / 2 ^ 51"
proof -
  define u :: real where "u = 1 / 2 ^ 53"
  define C where "C = round_double (B - 2)"
  define m where "m = \<bar>s\<bar> + 10"
  define dA where "dA = \<bar>A - (s + 8)\<bar>"
  define dB where "dB = \<bar>B - (s + 10)\<bar>"
  define dC where "dC = \<bar>C - (B - 2)\<bar>"
  define n where "n = \<bar>B - 2\<bar>"
  have u: "0 \<le> u" "u \<le> 1" by (simp_all add: u_def)
  have m: "0 \<le> m" by (simp add: m_def)
  have s8: "\<bar>s + 8\<bar> \<le> m" and s10: "\<bar>s + 10\<bar> \<le> m"
    unfolding m_def by linarith+
  have "dA \<le> u * \<bar>s + 8\<bar>"
    using round_double_error [of "s + 8"] by (simp add: A_def u_def dA_def)
  also have "\<dots> \<le> u * m" using s8 u(1) by (rule mult_left_mono)
  finally have a: "dA \<le> u * m" .
  have "dB \<le> u * \<bar>s + 10\<bar>"
    using round_double_error [of "s + 10"] by (simp add: B_def u_def dB_def)
  also have "\<dots> \<le> u * m" using s10 u(1) by (rule mult_left_mono)
  finally have b: "dB \<le> u * m" .
  have "u * m \<le> 1 * m" using u(2) m by (rule mult_right_mono)
  hence b': "dB \<le> m" using b by simp
  have "n \<le> dB + \<bar>s + 8\<bar>" unfolding n_def dB_def by linarith
  hence n: "n \<le> 2 * m" using b' s8 by linarith
  have "dC \<le> u * n"
    using round_double_error [of "B - 2"] by (simp add: C_def u_def dC_def n_def)
  also have "\<dots> \<le> u * (2 * m)" using n u(1) by (rule mult_left_mono)
  finally have c: "dC \<le> 2 * (u * m)" by simp
  have "\<bar>A - C\<bar> \<le> dA + dB + dC" unfolding dA_def dB_def dC_def by linarith
  hence "\<bar>A - C\<bar> \<le> 4 * (u * m)" using a b c by linarith
  also have "\<dots> = (\<bar>s\<bar> + 10) / 2 ^ 51" by (simp add: u_def m_def)
  finally show ?thesis by (simp add: C_def)
qed

text \<open>
  The roundings met on the way from the inputs 0 kWh, 60 km by car, no flight and 90
  vegetarian meals: \<open>60 * 0.17\<close> is the double \<open>10.200000000000001\<close>, \<open>90 * 1.2\<close> is \<open>108.0\<close>, their
  sum is \<open>118.2\<close>; adding \<open>8.0\<close> gives \<open>126.2\<close>, while adding \<open>10.0\<close> falls halfway between two
  doubles and is rounded down to \<open>128.2\<close>, from which \<open>2.0\<close> leads to \<open>126.19999999999999\<close>.
\<close>

lemma round_double_0_17: "round_double 0.17 = 6124895493223875 / 2 ^ 55"
proof -
  have "round_half_even (0.17 * 2 ^ 55) = 6124895493223875"
    by (simp add: round_half_even_def Let_def)
  thus ?thesis using round_double_scaled [of "0.17" 55] by simp
qed

lemma round_double_1_2: "round_double 1.2 = 5404319552844595 / 2 ^ 52"
proof -
  have "round_half_even (1.2 * 2 ^ 52) = 5404319552844595"
    by (simp add: round_half_even_def Let_def)
  thus ?thesis using round_double_scaled [of "1.2" 52] by simp
qed

lemma travel_60_km: "round_double (60 * round_double 0.17) = 5742089524897383 / 2 ^ 49"
proof -
  have "round_half_even (60 * (6124895493223875 / 2 ^ 55) * 2 ^ 49) = 5742089524897383"
    by (simp add: round_half_even_def Let_def)
  hence "round_double (60 * (6124895493223875 / 2 ^ 55)) = 5742089524897383 / 2 ^ 49"
    using round_double_scaled [of "60 * (6124895493223875 / 2 ^ 55)" 49] by simp
  thus ?thesis by (simp only: round_double_0_17)
qed

lemma diet_90_meals: "round_double (90 * round_double 1.2) = 108"
proof -
  have "round_half_even (90 * (5404319552844595 / 2 ^ 52) * 2 ^ 46) = 7599824371187712"
    by (simp add: round_half_even_def Let_def)
  hence "round_double (90 * (5404319552844595 / 2 ^ 52)) = 108"
    using round_double_scaled [of "90 * (5404319552844595 / 2 ^ 52)" 46] by simp
  thus ?thesis by (simp only: round_double_1_2)
qed

lemma rounded_sums:
  "round_double (5742089524897383 / 2 ^ 49) = 5742089524897383 / 2 ^ 49"
  "round_double (5742089524897383 / 2 ^ 49 + 108) = 8317585561799885 / 2 ^ 46"
  "round_double (8317585561799885 / 2 ^ 46 + 8) = 8880535515221197 / 2 ^ 46"
  "round_double (8317585561799885 / 2 ^ 46 + 10) = 4510636501788262 / 2 ^ 45"
  "round_double (4510636501788262 / 2 ^ 45 - 2) = 8880535515221196 / 2 ^ 46"
proof -
  have "round_half_even (5742089524897383 / 2 ^ 49 * 2 ^ 49) = 5742089524897383"
    by (simp add: round_half_even_def Let_def)
  thus "round_double (5742089524897383 / 2 ^ 49) = 5742089524897383 / 2 ^ 49"
    using round_double_scaled [of "5742089524897383 / 2 ^ 49" 49] by simp
  have "round_half_even ((5742089524897383 / 2 ^ 49 + 108) * 2 ^ 46) = 8317585561799885"
    by (simp add: round_half_even_def Let_def)
  thus "round_double (5742089524897383 / 2 ^ 49 + 108) = 8317585561799885 / 2 ^ 46"
    using round_double_scaled [of "5742089524897383 / 2 ^ 49 + 108" 46] by simp
  have "round_half_even ((8317585561799885 / 2 ^ 46 + 8) * 2 ^ 46) = 8880535515221197"
    by (simp add: round_half_even_def Let_def)
  thus "round_double (8317585561799885 / 2 ^ 46 + 8) = 8880535515221197 / 2 ^ 46"
    using round_double_scaled [of "8317585561799885 / 2 ^ 46 + 8" 46] by simp
  have "round_half_even ((8317585561799885 / 2 ^ 46 + 10) * 2 ^ 45) = 4510636501788262"
    by (simp add: round_half_even_def Let_def)
  thus "round_double (8317585561799885 / 2 ^ 46 + 10) = 4510636501788262 / 2 ^ 45"
    using round_double_scaled [of "8317585561799885 / 2 ^ 46 + 10" 45] by simp
  have "round_half_even ((4510636501788262 / 2 ^ 45 - 2) * 2 ^ 46) = 8880535515221196"
    by (simp add: round_half_even_def Let_def)
  thus "round_double (4510636501788262 / 2 ^ 45 - 2) = 8880535515221196 / 2 ^ 46"
    using round_double_scaled [of "4510636501788262 / 2 ^ 45 - 2" 46] by simp
qed

subsection \<open>The effect of recycling on the total\<close>

text \<open>
  C8, as the source has it: with the factor 0.8 the waste component is exactly 8.0 and with
  the factor 1.0 exactly 10.0; with \<open>s\<close> the double sum of energy, travel and diet, the two
  totals are \<open>s + 8.0\<close> and \<open>s + 10.0\<close>, each rounded to a double, so that the total with the
  factor 0.8 and the total with the factor 1.0 minus 2.0 differ by rounding only, by at most
  \<open>(\<bar>s\<bar> + 10) / 2 ^ 51\<close>; in exact arithmetic, without any rounding, they are equal.
\<close>

theorem total_footprint_recycling:
  "Waste (calculate_total_footprint_double e t d (round_double 0.8)) = 8.0
   \<and> Waste (calculate_total_footprint_double e t d 1.0) = 10.0
   \<and> (let s = round_double (round_double (e + t) + d);
           total_recycling = Total (calculate_total_footprint_double e t d (round_double 0.8));
           total_plain = Total (calculate_total_footprint_double e t d 1.0)
       in total_recycling = round_double (s + 8.0)
          \<and> total_plain = round_double (s + 10.0)
          \<and> \<bar>total_recycling - round_double (total_plain - 2.0)\<bar> \<le> (\<bar>s\<bar> + 10) / 2 ^ 51)
   \<and> Total (calculate_total_footprint e t d 0.8)
       = Total (calculate_total_footprint e t d 1.0) - 2.0"
proof -
  let ?s = "round_double (round_double (e + t) + d)"
  let ?r = "calculate_total_footprint_double e t d (round_double 0.8)"
  let ?p = "calculate_total_footprint_double e t d 1.0"
  have w8: "Waste (calculate_total_footprint_double e t d (round_double 0.8)) = 8"
    by (simp only: calculate_total_footprint_double_def Let_def waste_per_person_co2_def
        footprint_breakdown.select_convs waste_recycling)
  have w10: "Waste (calculate_total_footprint_double e t d 1) = 10"
    by (simp only: calculate_total_footprint_double_def Let_def waste_per_person_co2_def
        footprint_breakdown.select_convs mult_1_right waste_no_recycling)
  have t8: "Total (calculate_total_footprint_double e t d (round_double 0.8))
              = round_double (?s + 8)"
    by (simp only: calculate_total_footprint_double_def Let_def waste_per_person_co2_def
        footprint_breakdown.select_convs waste_recycling)
  have t10: "Total (calculate_total_footprint_double e t d 1) = round_double (?s + 10)"
    by (simp only: calculate_total_footprint_double_def Let_def waste_per_person_co2_def
        footprint_breakdown.select_convs mult_1_right waste_no_recycling)
  have c1: "Waste ?r = 8.0" using w8 by simp
  have c2: "Waste ?p = 10.0" using w10 by simp
  have c3: "Total ?r = round_double (?s + 8.0)" using t8 by simp
  have c4: "Total ?p = round_double (?s + 10.0)" using t10 by simp
  have "\<bar>round_double (?s + 8) - round_double (round_double (?s + 10) - 2)\<bar>
          \<le> (\<bar>?s\<bar> + 10) / 2 ^ 51"
    by (rule recycling_rounding_bound)
  hence "\<bar>Total (calculate_total_footprint_double e t d (round_double 0.8))
           - round_double (Total (calculate_total_footprint_double e t d 1) - 2)\<bar>
          \<le> (\<bar>?s\<bar> + 10) / 2 ^ 51"
    by (simp only: t8 t10)
  hence c5: "\<bar>Total ?r - round_double (Total ?p - 2.0)\<bar> \<le> (\<bar>?s\<bar> + 10) / 2 ^ 51"
    by simp
  have c6: "Total (calculate_total_footprint e t d 0.8)
              = Total (calculate_total_footprint e t d 1.0) - 2.0"
    by (simp add: calculate_total_footprint_def Let_def waste_per_person_co2_def)
  show ?thesis unfolding Let_def using c1 c2 c3 c4 c5 c6 by blast
qed

text \<open>
  C8 as the specification words it fails in the arithmetic of the code: for the energy
  \<open>0.0\<close>, the travel \<open>10.200000000000001\<close> (the double that \<open>60 * 0.17\<close> evaluates to) and the
  diet \<open>108.0\<close> (the double that \<open>90 * 1.2\<close> evaluates to), the total with the factor 0.8 is
  \<open>126.2\<close>, and the total with the factor 1.0, minus 2.0, is \<open>126.19999999999999\<close>, the double
  just below.
\<close>

theorem total_footprint_recycling_counterexample:
  "round_double (60 * round_double 0.17) = 5742089524897383 / 2 ^ 49
   \<and> round_double (90 * round_double 1.2) = 108
   \<and> Total (calculate_total_footprint_double 0 (5742089524897383 / 2 ^ 49) 108
             (round_double 0.8))
       = 8880535515221197 / 2 ^ 46
   \<and> round_double
         (Total (calculate_total_footprint_double 0 (5742089524897383 / 2 ^ 49) 108 1.0) - 2.0)
       = 8880535515221196 / 2 ^ 46
   \<and> Total (calculate_total_footprint_double 0 (5742089524897383 / 2 ^ 49) 108
             (round_double 0.8))
       \<noteq> round_double
           (Total (calculate_total_footprint_double 0 (5742089524897383 / 2 ^ 49) 108 1.0)
            - 2.0)"
proof -
  have a: "Total (calculate_total_footprint_double 0 (5742089524897383 / 2 ^ 49) 108
                    (round_double 0.8))
             = 8880535515221197 / 2 ^ 46"
    by (simp only: calculate_total_footprint_double_def Let_def waste_per_person_co2_def
        footprint_breakdown.select_convs waste_recycling add_0 rounded_sums)
  have "Total (calculate_total_footprint_double 0 (5742089524897383 / 2 ^ 49) 108 1)
          = 4510636501788262 / 2 ^ 45"
    by (simp only: calculate_total_footprint_double_def Let_def waste_per_person_co2_def
        footprint_breakdown.select_convs mult_1_right waste_no_recycling add_0 rounded_sums)
  hence b: "round_double
              (Total (calculate_total_footprint_double 0 (5742089524897383 / 2 ^ 49) 108 1) - 2)
            = 8880535515221196 / 2 ^ 46"
    by (simp only: rounded_sums)
  show ?thesis
    using travel_60_km diet_90_meals a b by simp
qed

section \<open>Properties of the persisted log\<close>

subsection \<open>Equality and order of atoms\<close>

lemma py_eq_num: "is_num a \<Longrightarrow> is_num b \<Longrightarrow> py_eq a b = (num_val a = num_val b)"
  by (cases a; cases b) auto

lemma py_eq_str: "is_str a \<Longrightarrow> is_str b \<Longrightarrow> py_eq a b = (str_val a = str_val b)"
  by (cases a; cases b) auto






subsection \<open>The set\<close>

lemma set_py_dedup_subset: "set (py_dedup xs) \<subseteq> set xs"
  by (induction xs rule: py_dedup.induct) auto

lemma py_dedup_distinct: "sorted_wrt (\<lambda>a b. \<not> py_eq a b) (py_dedup xs)"
proof (induction xs rule: py_dedup.induct)
  case 1
  then show ?case by simp
next
  case (2 x xs)
  let ?rest = "filter (\<lambda>y. \<not> py_eq x y) xs"
  have sub: "set (py_dedup ?rest) \<subseteq> set ?rest" by (rule set_py_dedup_subset)
  have all: "\<forall>y\<in>set (py_dedup ?rest). \<not> py_eq x y"
  proof
    fix y assume "y \<in> set (py_dedup ?rest)"
    with sub have "y \<in> set ?rest" by (rule subsetD)
    then show "\<not> py_eq x y" by simp
  qed
  from all "2.IH" show ?case
    by (simp only: py_dedup.simps sorted_wrt.simps simp_thms)
qed


lemma set_py_dedup_strs: "list_all is_str xs \<Longrightarrow> set (py_dedup xs) = set xs"
proof (induction xs rule: py_dedup.induct)
  case 1
  then show ?case by simp
next
  case (2 x xs)
  let ?rest = "filter (\<lambda>y. \<not> py_eq x y) xs"
  from "2.prems" have strs: "list_all is_str ?rest"
    by (simp add: list_all_iff)
  have same: "y = x" if "y \<in> set xs" "py_eq x y" for y
  proof -
    from "2.prems" that(1) have "is_str x" "is_str y" by (simp_all add: list_all_iff)
    with that(2) show ?thesis by (cases x; cases y) simp_all
  qed
  have "set (py_dedup (x # xs)) = insert x (set (py_dedup ?rest))" by simp
  also have "set (py_dedup ?rest) = set ?rest" using strs by (rule "2.IH")
  also have "insert x (set ?rest) = insert x (set xs)"
  proof (rule set_eqI)
    fix y show "y \<in> insert x (set ?rest) \<longleftrightarrow> y \<in> insert x (set xs)"
      using same [of y] by auto
  qed
  finally show ?case by simp
qed

lemma hash_all_atoms: "hash_all (map Atom xs) = Inr xs"
  by (induction xs) auto

subsection \<open>The sort\<close>

lemma distinct_keys_num:
  "sorted_wrt (\<lambda>a b. \<not> py_eq a b) xs \<Longrightarrow> list_all is_num xs \<Longrightarrow> distinct (map num_val xs)"
  by (induction xs) (auto simp: list_all_iff py_eq_num)

lemma distinct_keys_str:
  "sorted_wrt (\<lambda>a b. \<not> py_eq a b) xs \<Longrightarrow> list_all is_str xs \<Longrightarrow> distinct (map str_val xs)"
  by (induction xs) (auto simp: list_all_iff py_eq_str)

lemma distinct_map_sort_key:
  "distinct (map f (sort_key f xs)) = distinct (map f xs)"
  by (induction xs) (simp_all add: distinct_insort_key)

lemma sort_key_strict:
  fixes f :: "'a \<Rightarrow> 'k::linorder"
  assumes "distinct (map f xs)"
  shows "sorted_wrt (\<lambda>a b. f a < f b) (sort_key f xs)"
proof -
  have "distinct (map f (sort_key f xs))"
    using assms by (simp add: distinct_map_sort_key)
  moreover have "sorted (map f (sort_key f xs))" by simp
  ultimately have "sorted_wrt (<) (map f (sort_key f xs))"
    by (simp add: strict_sorted_iff)
  then show ?thesis by (simp add: sorted_wrt_map)
qed

lemma num_less_py_less:
  assumes "sorted_wrt (\<lambda>a b. num_val a < num_val b) ys" and "list_all is_num ys"
  shows "sorted_wrt py_less ys"
proof (rule sorted_wrt_mono_rel [OF _ assms(1)])
  fix x y assume "x \<in> set ys" "y \<in> set ys" "num_val x < num_val y"
  with assms(2) show "py_less x y" by (simp add: list_all_iff py_less_def)
qed

lemma str_less_py_less:
  assumes "sorted_wrt (\<lambda>a b. str_val a < str_val b) ys" and "list_all is_str ys"
  shows "sorted_wrt py_less ys"
proof (rule sorted_wrt_mono_rel [OF _ assms(1)])
  fix x y assume xy: "x \<in> set ys" "y \<in> set ys" "str_val x < str_val y"
  with assms(2) have "is_str x" "is_str y" by (simp_all add: list_all_iff)
  moreover from this have "\<not> is_num x" by (cases x) auto
  ultimately show "py_less x y" using xy(3) by (simp add: py_less_def)
qed



lemma py_sorted_ascending:
  assumes "py_sorted xs = Inr ys" and "sorted_wrt (\<lambda>a b. \<not> py_eq a b) xs"
  shows "sorted_wrt py_less ys \<and> set ys = set xs \<and> length ys = length xs"
proof -
  consider (short) "length xs \<le> 1"
    | (nums) "\<not> length xs \<le> 1" "list_all is_num xs"
    | (strs) "\<not> length xs \<le> 1" "\<not> list_all is_num xs" "list_all is_str xs"
    using assms(1) by (auto simp: py_sorted_def split: if_splits)
  then show ?thesis
  proof cases
    case short
    with assms(1) have "ys = xs" by (simp add: py_sorted_def)
    moreover from short have "sorted_wrt py_less xs"
      by (cases xs) auto
    ultimately show ?thesis by simp
  next
    case nums
    with assms(1) have ys: "ys = sort_key num_val xs" by (simp add: py_sorted_def)
    from sort_key_strict [OF distinct_keys_num [OF assms(2) nums(2)]]
    have "sorted_wrt (\<lambda>a b. num_val a < num_val b) ys" unfolding ys .
    moreover have "list_all is_num ys" using nums(2) by (simp add: ys list_all_iff)
    ultimately have "sorted_wrt py_less ys" by (rule num_less_py_less)
    then show ?thesis by (simp add: ys)
  next
    case strs
    with assms(1) have ys: "ys = sort_key str_val xs" by (simp add: py_sorted_def)
    from sort_key_strict [OF distinct_keys_str [OF assms(2) strs(3)]]
    have "sorted_wrt (\<lambda>a b. str_val a < str_val b) ys" unfolding ys .
    moreover have "list_all is_str ys" using strs(3) by (simp add: ys list_all_iff)
    ultimately have "sorted_wrt py_less ys" by (rule str_less_py_less)
    then show ?thesis by (simp add: ys)
  qed
qed





subsection \<open>Loading\<close>

lemma irrefl_sorted_wrt_distinct:
  assumes "sorted_wrt P xs" and "\<And>x. \<not> P x x"
  shows "distinct xs"
  using assms(1)
proof (induction xs)
  case Nil
  then show ?case by simp
next
  case (Cons x xs)
  then have "\<forall>y\<in>set xs. P x y" and "distinct xs" by simp_all
  with assms(2) have "x \<notin> set xs" by blast
  with \<open>distinct xs\<close> show ?case by simp
qed

lemma py_less_irrefl: "\<not> py_less x x"
  by (simp add: py_less_def)

lemma py_set_distinct: "py_set v = Inr s \<Longrightarrow> sorted_wrt (\<lambda>a b. \<not> py_eq a b) s"
  by (auto simp: py_set_def py_dedup_distinct split: sum.splits)

lemma load_body_ascending:
  assumes "load_body c = Inr xs"
  shows "sorted_wrt py_less xs"
proof -
  from assms obtain v s where "py_set v = Inr s" and sorted: "py_sorted s = Inr xs"
    by (auto simp: load_body_def split: sum.splits)
  from py_sorted_ascending [OF sorted py_set_distinct [OF this(1)]] show ?thesis by simp
qed

lemma load_ascending:
  assumes "load_streak_dates st = Inr xs"
  shows "sorted_wrt py_less xs"
proof (cases st)
  case None
  with assms show ?thesis by (simp add: load_streak_dates_def)
next
  case (Some c)
  show ?thesis
  proof (cases "load_body c")
    case (Inl e)
    with assms Some have "xs = []"
      by (simp add: load_streak_dates_def split: if_splits)
    then show ?thesis by simp
  next
    case (Inr dates)
    with assms Some have "dates = xs" by (simp add: load_streak_dates_def)
    with Inr show ?thesis by (simp add: load_body_ascending)
  qed
qed

lemma py_set_atoms: "py_set (PList (map Atom xs)) = Inr (py_dedup xs)"
  by (simp add: py_set_def hash_all_atoms)

lemma py_sorted_error: "py_sorted xs = Inl e \<Longrightarrow> e = TypeError"
  by (simp add: py_sorted_def split: if_splits)

lemma load_dump: "load_streak_dates (Some (dump_dates xs)) = py_sorted (py_dedup xs)"
proof (cases "py_sorted (py_dedup xs)")
  case (Inl e)
  with py_sorted_error [OF Inl] show ?thesis
    by (simp add: load_streak_dates_def load_body_def json_load_def dump_dates_def
        py_set_atoms)
next
  case (Inr ys)
  then show ?thesis
    by (simp add: load_streak_dates_def load_body_def json_load_def dump_dates_def
        py_set_atoms)
qed



subsection \<open>Lists of strings\<close>

lemma py_less_PStr: "py_less (PStr a) (PStr b) = (a < b)"
  by (simp add: py_less_def)

lemma ascending_strs: "sorted_wrt py_less (map PStr zs) = sorted_wrt (<) zs"
  by (simp add: sorted_wrt_map py_less_PStr)

lemma strs_of_atoms: "list_all is_str ys \<Longrightarrow> map PStr (map str_val ys) = ys"
proof (induction ys)
  case Nil
  then show ?case by simp
next
  case (Cons a ys)
  then show ?case by (cases a) simp_all
qed

lemma py_sorted_strs:
  assumes "list_all is_str xs"
  shows "\<exists>ys. py_sorted xs = Inr ys"
  using assms by (simp add: py_sorted_def)


subsection \<open>Saving\<close>





lemma load_dump_strs:
  "load_streak_dates (Some (dump_dates (map PStr strs))) = Inr (map PStr (sort (remdups strs)))"
proof -
  let ?xs = "py_dedup (map PStr strs)"
  have all: "list_all is_str (map PStr strs)" by (simp add: list_all_iff)
  from set_py_dedup_strs [OF all] have set: "set ?xs = PStr ` set strs" by simp
  then have strs: "list_all is_str ?xs" by (auto simp: list_all_iff)
  from py_sorted_strs [OF strs] obtain ys where ys: "py_sorted ?xs = Inr ys" by blast
  from py_sorted_ascending [OF ys py_dedup_distinct]
  have asc: "sorted_wrt py_less ys" and set': "set ys = set ?xs" by simp_all
  from set' set have "list_all is_str ys" by (auto simp: list_all_iff)
  then have conv: "map PStr (map str_val ys) = ys" by (rule strs_of_atoms)
  with asc have "sorted_wrt (<) (map str_val ys)" by (metis ascending_strs)
  then have "sorted (map str_val ys)" "distinct (map str_val ys)"
    by (simp_all add: strict_sorted_iff)
  moreover have "set (map str_val ys) = set (sort (remdups strs))"
  proof -
    have "set (map str_val ys) = str_val ` PStr ` set strs" using set set' by simp
    also have "\<dots> = set strs" by (simp add: image_image)
    finally show ?thesis by simp
  qed
  moreover have "sorted (sort (remdups strs))" "distinct (sort (remdups strs))" by simp_all
  ultimately have "map str_val ys = sort (remdups strs)"
    by (metis sorted_distinct_set_unique)
  with conv have "ys = map PStr (sort (remdups strs))" by simp
  with ys show ?thesis by (simp add: load_dump)
qed

subsection \<open>Zero-padded date strings\<close>

text \<open>
  For zero-padded strings that \<open>strptime\<close> accepts, the order of the strings is the order of
  the dates: the characters compare as the digits do, and the ordinal grows with the year,
  the month and the day, in this order.
\<close>

lemma digit_val_range: "is_digit c \<Longrightarrow> 0 \<le> digit_val c \<and> digit_val c \<le> 9"
  by (auto simp: is_digit_def digit_val_def)

lemma digit_less: "is_digit a \<Longrightarrow> is_digit b \<Longrightarrow> a < b \<longleftrightarrow> digit_val a < digit_val b"
  by (auto simp: is_digit_def digit_val_def less_char_def)

lemma digit_eq: "is_digit a \<Longrightarrow> is_digit b \<Longrightarrow> a = b \<longleftrightarrow> digit_val a = digit_val b"
  by (auto simp: is_digit_def digit_val_def)

lemma match_month_padded:
  assumes "is_digit m1" "is_digit m2" "match_month (m1 # m2 # CHR ''-'' # r) = Some (m, CHR ''-'' # r')"
  shows "m = field2 m1 m2 \<and> r' = r"
  using assms by (auto simp: field2_def is_digit_def digit_val_def split: if_splits)

lemma match_day_padded:
  assumes "is_digit d1" "is_digit d2" "match_day [d1, d2] = Some (d, [])"
  shows "d = field2 d1 d2"
  using assms by (auto simp: field2_def is_digit_def digit_val_def split: if_splits)

lemma strptime_padded:
  assumes "is_digit y1" "is_digit y2" "is_digit y3" "is_digit y4"
    "is_digit m1" "is_digit m2" "is_digit d1" "is_digit d2"
    "strptime_ymd [y1, y2, y3, y4, CHR ''-'', m1, m2, CHR ''-'', d1, d2] = Inr d"
  shows "new_date (field4 y1 y2 y3 y4) (field2 m1 m2) (field2 d1 d2) = Inr d"
proof -
  from assms(9) obtain m r1 where
    mm: "match_month [m1, m2, CHR ''-'', d1, d2] = Some (m, r1)"
    by (auto simp: assms(1-4) split: option.splits)
  from assms(9) mm obtain r2 where r1: "r1 = CHR ''-'' # r2"
    by (auto simp: assms(1-4) split: list.splits if_splits)
  from match_month_padded [OF assms(5,6) mm [unfolded r1]]
  have m: "m = field2 m1 m2" and r2: "r2 = [d1, d2]" by simp_all
  from assms(9) mm r1 r2 obtain dd r3 where
    md: "match_day [d1, d2] = Some (dd, r3)"
    by (auto simp: assms(1-4) split: option.splits)
  from assms(9) mm r1 r2 md have r3: "r3 = []"
    by (auto simp: assms(1-4) split: if_splits)
  from match_day_padded [OF assms(7,8) md [unfolded r3]] have dd: "dd = field2 d1 d2" .
  from assms(9) mm r1 r2 md r3 m dd show ?thesis
    by (simp add: assms(1-4) field4_def)
qed


lemma padded_less:
  assumes "is_digit y1" "is_digit y2" "is_digit y3" "is_digit y4"
    "is_digit m1" "is_digit m2" "is_digit d1" "is_digit d2"
    "is_digit y1'" "is_digit y2'" "is_digit y3'" "is_digit y4'"
    "is_digit m1'" "is_digit m2'" "is_digit d1'" "is_digit d2'"
    "[y1, y2, y3, y4, CHR ''-'', m1, m2, CHR ''-'', d1, d2]
       < [y1', y2', y3', y4', CHR ''-'', m1', m2', CHR ''-'', d1', d2']"
  shows "field4 y1 y2 y3 y4 < field4 y1' y2' y3' y4'
     \<or> field4 y1 y2 y3 y4 = field4 y1' y2' y3' y4'
        \<and> (field2 m1 m2 < field2 m1' m2'
           \<or> field2 m1 m2 = field2 m1' m2' \<and> field2 d1 d2 < field2 d1' d2')"
  using assms(17) assms(1-16)
    digit_val_range [of y2] digit_val_range [of y3] digit_val_range [of y4]
    digit_val_range [of m2] digit_val_range [of d2]
    digit_val_range [of y2'] digit_val_range [of y3'] digit_val_range [of y4']
    digit_val_range [of m2'] digit_val_range [of d2']
  by (auto simp: field4_def field2_def digit_less)


lemma div_step:
  fixes y n :: int
  assumes "0 < n"
  shows "y div n = (y - 1) div n + (if y mod n = 0 then 1 else 0)"
proof -
  define q where "q = y div n"
  define r where "r = y mod n"
  have y: "y = n * q + r" by (simp add: q_def r_def)
  have r: "0 \<le> r" "r < n" using assms by (simp_all add: r_def)
  show ?thesis
  proof (cases "r = 0")
    case True
    have e: "y - 1 = n * (q - 1) + (n - 1)" using y True by (simp add: algebra_simps)
    have "(y - 1) div n = q - 1" by (rule int_div_pos_eq [OF e]) (use assms in simp_all)
    thus ?thesis using True by (simp add: q_def r_def)
  next
    case False
    have e: "y - 1 = n * q + (r - 1)" using y by simp
    have "(y - 1) div n = q" by (rule int_div_pos_eq [OF e]) (use r False in simp_all)
    thus ?thesis using False by (simp add: q_def r_def)
  qed
qed

lemma days_before_year_step:
  "days_before_year (y + 1) = days_before_year y + 365 + (if is_leap y then 1 else 0)"
proof -
  have d4: "y div 4 = (y - 1) div 4 + (if y mod 4 = 0 then 1 else 0)"
    by (rule div_step) simp
  have d100: "y div 100 = (y - 1) div 100 + (if y mod 100 = 0 then 1 else 0)"
    by (rule div_step) simp
  have d400: "y div 400 = (y - 1) div 400 + (if y mod 400 = 0 then 1 else 0)"
    by (rule div_step) simp
  have "(4::int) dvd 100" "(100::int) dvd 400" by simp_all
  hence m: "y mod 100 = 0 \<Longrightarrow> y mod 4 = 0" "y mod 400 = 0 \<Longrightarrow> y mod 100 = 0"
    by (simp_all only: mod_eq_0_iff_dvd) (erule dvd_trans, assumption)+
  have s: "days_before_year (y + 1) = y * 365 + y div 4 - y div 100 + y div 400"
    by (simp add: days_before_year_def Let_def)
  have t: "days_before_year y
             = (y - 1) * 365 + (y - 1) div 4 - (y - 1) div 100 + (y - 1) div 400"
    by (simp add: days_before_year_def Let_def)
  show ?thesis
  proof (cases "y mod 4 = 0")
    case False
    with m have "y mod 100 \<noteq> 0" "y mod 400 \<noteq> 0" by auto
    with False show ?thesis
      unfolding s t is_leap_def by (simp only: d4 d100 d400 if_False if_True) simp
  next
    case 4: True
    show ?thesis
    proof (cases "y mod 100 = 0")
      case False
      with m have "y mod 400 \<noteq> 0" by auto
      with 4 False show ?thesis
        unfolding s t is_leap_def by (simp only: d4 d100 d400 if_False if_True) simp
    next
      case 100: True
      show ?thesis
      proof (cases "y mod 400 = 0")
        case False
        with 4 100 show ?thesis
          unfolding s t is_leap_def by (simp only: d4 d100 d400 if_False if_True) simp
      next
        case True
        with 4 100 show ?thesis
          unfolding s t is_leap_def by (simp only: d4 d100 d400 if_False if_True) simp
      qed
    qed
  qed
qed


lemma days_before_year_mono:
  assumes "y < y'"
  shows "days_before_year y + 365 + (if is_leap y then 1 else 0) \<le> days_before_year y'"
proof -
  from assms have "y + 1 \<le> y'" by simp
  then show ?thesis
  proof (induction y' rule: int_ge_induct)
    case base
    show ?case by (simp only: days_before_year_step order_refl)
  next
    case (step k)
    have "days_before_year k \<le> days_before_year (k + 1)"
      by (simp only: days_before_year_step) simp
    with step.IH show ?case by linarith
  qed
qed

lemma month_cases:
  assumes "1 \<le> m" "m \<le> 12"
  shows "m = 1 \<or> m = 2 \<or> m = 3 \<or> m = 4 \<or> m = 5 \<or> m = 6 \<or> m = 7 \<or> m = 8
     \<or> m = 9 \<or> m = 10 \<or> m = 11 \<or> m = (12::int)"
  using assms by arith

lemma days_before_month_values:
  "days_before_month y 1 = 0"
  "days_before_month y 2 = 31"
  "days_before_month y 3 = 59 + (if is_leap y then 1 else 0)"
  "days_before_month y 4 = 90 + (if is_leap y then 1 else 0)"
  "days_before_month y 5 = 120 + (if is_leap y then 1 else 0)"
  "days_before_month y 6 = 151 + (if is_leap y then 1 else 0)"
  "days_before_month y 7 = 181 + (if is_leap y then 1 else 0)"
  "days_before_month y 8 = 212 + (if is_leap y then 1 else 0)"
  "days_before_month y 9 = 243 + (if is_leap y then 1 else 0)"
  "days_before_month y 10 = 273 + (if is_leap y then 1 else 0)"
  "days_before_month y 11 = 304 + (if is_leap y then 1 else 0)"
  "days_before_month y 12 = 334 + (if is_leap y then 1 else 0)"
  by (simp_all add: days_before_month_def)

lemma days_in_month_values:
  "days_in_month y 1 = 31"
  "days_in_month y 2 = (if is_leap y then 29 else 28)"
  "days_in_month y 3 = 31"
  "days_in_month y 4 = 30"
  "days_in_month y 5 = 31"
  "days_in_month y 6 = 30"
  "days_in_month y 7 = 31"
  "days_in_month y 8 = 31"
  "days_in_month y 9 = 30"
  "days_in_month y 10 = 31"
  "days_in_month y 11 = 30"
  "days_in_month y 12 = 31"
  by (simp_all add: days_in_month_def)

text \<open>The day of the year of the last day of a month, and of the day before its first.\<close>

lemma month_end:
  assumes "1 \<le> m" "m \<le> 12"
  shows "days_before_month y m + days_in_month y m
           \<le> 365 + (if is_leap y then 1 else 0)"
    and "0 \<le> days_before_month y m"
  using month_cases [OF assms]
  by (auto simp: days_before_month_values days_in_month_values)

lemma month_next:
  assumes "1 \<le> m" "m < 12"
  shows "days_before_month y (m + 1) = days_before_month y m + days_in_month y m"
proof -
  from assms have "m \<le> 12" by simp
  from month_cases [OF assms(1) this] assms(2) show ?thesis
    by (auto simp: days_before_month_values days_in_month_values)
qed

lemma month_le:
  assumes "1 \<le> m" "m < m'" "m' \<le> 12"
  shows "days_before_month y m + days_in_month y m \<le> days_before_month y m'"
proof -
  from assms(2) have "m + 1 \<le> m'" by simp
  then show ?thesis using assms(3)
  proof (induction m' rule: int_ge_induct)
    case base
    with assms(1) show ?case by (simp add: month_next)
  next
    case (step k)
    from step have k: "1 \<le> k" "k < 12" "k \<le> 12" using assms(1) by simp_all
    have "0 \<le> days_in_month y k"
      using month_cases [OF k(1,3)] by (auto simp: days_in_month_values)
    with step.IH k month_next [OF k(1,2), of y] show ?case by simp
  qed
qed

lemma ymd2ord_mono:
  assumes "1 \<le> m" "m \<le> 12" "1 \<le> d" "d \<le> days_in_month y m"
    "1 \<le> m'" "m' \<le> 12" "1 \<le> d'" "d' \<le> days_in_month y' m'"
    "y < y' \<or> y = y' \<and> (m < m' \<or> m = m' \<and> d < d')"
  shows "ymd2ord y m d < ymd2ord y' m' d'"
proof -
  consider "y < y'" | "y = y'" "m < m'" | "y = y'" "m = m'" "d < d'"
    using assms(9) by blast
  then show ?thesis
  proof cases
    case 1
    from month_end(1) [OF assms(1,2), of y] assms(4)
    have "days_before_month y m + d \<le> 365 + (if is_leap y then 1 else 0)" by linarith
    moreover from month_end(2) [OF assms(5,6), of y'] assms(7)
    have "1 \<le> days_before_month y' m' + d'" by linarith
    moreover note days_before_year_mono [OF 1]
    ultimately show ?thesis unfolding ymd2ord_def by linarith
  next
    case 2
    from month_le [OF assms(1) 2(2) assms(6), of y] assms(4,7) 2(1)
    show ?thesis unfolding ymd2ord_def by simp
  next
    case 3
    then show ?thesis by (simp add: ymd2ord_def)
  qed
qed


lemma new_date_Inr:
  assumes "new_date y m d = Inr x"
  shows "1 \<le> m" "m \<le> 12" "1 \<le> d" "d \<le> days_in_month y m" "x = ymd2ord y m d"
  using assms by (auto simp: new_date_def split: if_splits)

lemma padded_ordinal_less:
  assumes "is_digit y1" "is_digit y2" "is_digit y3" "is_digit y4"
    "is_digit m1" "is_digit m2" "is_digit d1" "is_digit d2"
    "is_digit y1'" "is_digit y2'" "is_digit y3'" "is_digit y4'"
    "is_digit m1'" "is_digit m2'" "is_digit d1'" "is_digit d2'"
    "[y1, y2, y3, y4, CHR ''-'', m1, m2, CHR ''-'', d1, d2]
       < [y1', y2', y3', y4', CHR ''-'', m1', m2', CHR ''-'', d1', d2']"
    "strptime_ymd [y1, y2, y3, y4, CHR ''-'', m1, m2, CHR ''-'', d1, d2] = Inr d"
    "strptime_ymd [y1', y2', y3', y4', CHR ''-'', m1', m2', CHR ''-'', d1', d2'] = Inr d'"
  shows "d < d'"
proof -
  note a = new_date_Inr [OF strptime_padded [OF assms(1-8) assms(18)]]
  note b = new_date_Inr [OF strptime_padded [OF assms(9-16) assms(19)]]
  from padded_less [OF assms(1-17)]
  have "ymd2ord (field4 y1 y2 y3 y4) (field2 m1 m2) (field2 d1 d2)
          < ymd2ord (field4 y1' y2' y3' y4') (field2 m1' m2') (field2 d1' d2')"
    by (rule ymd2ord_mono [OF a(1-4) b(1-4)])
  thus ?thesis by (simp only: a(5) b(5))
qed

lemma zero_padded_expand:
  assumes "zero_padded s"
  shows "[s ! 0, s ! 1, s ! 2, s ! 3, CHR ''-'', s ! 5, s ! 6, CHR ''-'', s ! 8, s ! 9] = s"
proof (rule nth_equalityI)
  from assms have len: "length s = 10" by (simp add: zero_padded_def)
  thus "length [s ! 0, s ! 1, s ! 2, s ! 3, CHR ''-'', s ! 5, s ! 6, CHR ''-'', s ! 8, s ! 9]
          = length s" by simp
  fix i
  assume "i < length [s ! 0, s ! 1, s ! 2, s ! 3, CHR ''-'', s ! 5, s ! 6, CHR ''-'', s ! 8, s ! 9]"
  hence "i < 10" by simp
  hence "i = 0 \<or> i = 1 \<or> i = 2 \<or> i = 3 \<or> i = 4 \<or> i = 5 \<or> i = 6 \<or> i = 7 \<or> i = 8 \<or> i = 9"
    by arith
  with assms show "[s ! 0, s ! 1, s ! 2, s ! 3, CHR ''-'', s ! 5, s ! 6, CHR ''-'', s ! 8, s ! 9] ! i
                     = s ! i"
    by (auto simp: zero_padded_def)
qed

lemma zero_padded_digits:
  assumes "zero_padded s"
  shows "is_digit (s ! 0)" "is_digit (s ! 1)" "is_digit (s ! 2)" "is_digit (s ! 3)"
    "is_digit (s ! 5)" "is_digit (s ! 6)" "is_digit (s ! 8)" "is_digit (s ! 9)"
  using assms by (simp_all add: zero_padded_def)

lemma strptime_padded_less:
  assumes "zero_padded s" "zero_padded s'" "s < s'"
    "strptime_ymd s = Inr d" "strptime_ymd s' = Inr d'"
  shows "d < d'"
proof -
  note e = zero_padded_expand [OF assms(1)] and e' = zero_padded_expand [OF assms(2)]
  show ?thesis
    by (rule padded_ordinal_less [OF zero_padded_digits [OF assms(1)]
          zero_padded_digits [OF assms(2)]])
       (simp_all only: e e' assms(3-5))
qed

lemma parse_dates_set:
  assumes "parse_dates (map PStr strs) = Inr ds" "d \<in> set ds"
  shows "\<exists>s \<in> set strs. strptime_ymd s = Inr d"
  using assms
proof (induction strs arbitrary: ds)
  case Nil
  then show ?case by simp
next
  case (Cons a strs)
  from Cons.prems(1) obtain x xs where
    x: "strptime_ymd a = Inr x" and xs: "parse_dates (map PStr strs) = Inr xs"
    and ds: "ds = x # xs"
    by (auto split: sum.splits)
  from Cons.prems(2) ds consider "d = x" | "d \<in> set xs" by auto
  then show ?case
  proof cases
    case 1
    with x show ?thesis by simp
  next
    case 2
    from Cons.IH [OF xs 2] show ?thesis by auto
  qed
qed

lemma parse_dates_padded_ascending:
  assumes "sorted_wrt (<) strs" "list_all zero_padded strs"
    "parse_dates (map PStr strs) = Inr ds"
  shows "sorted_wrt (<) ds"
  using assms
proof (induction strs arbitrary: ds)
  case Nil
  then show ?case by simp
next
  case (Cons a strs)
  from Cons.prems(3) obtain x xs where
    x: "strptime_ymd a = Inr x" and xs: "parse_dates (map PStr strs) = Inr xs"
    and ds: "ds = x # xs"
    by (auto split: sum.splits)
  from Cons.prems(1,2) have tl: "sorted_wrt (<) strs" "list_all zero_padded strs"
    and hd: "zero_padded a" "\<forall>s \<in> set strs. a < s"
    by simp_all
  have "x < d" if "d \<in> set xs" for d
  proof -
    from parse_dates_set [OF xs that] obtain s where
      s: "s \<in> set strs" "strptime_ymd s = Inr d" by blast
    from tl(2) s(1) have "zero_padded s" by (simp add: list_all_iff)
    from strptime_padded_less [OF hd(1) this _ x s(2)] hd(2) s(1) show ?thesis by blast
  qed
  with Cons.IH [OF tl xs] ds show ?case by simp
qed

subsection \<open>The claims on the persisted log\<close>

text \<open>
  C4 fails on the source. A missing file and a file that is not JSON give the empty list, but
  a file that is JSON of another shape gets past the handler, which catches only
  \<open>JSONDecodeError\<close> and \<open>KeyError\<close>: a JSON array or \<open>null\<close> at the top level raises
  \<open>AttributeError\<close> (no \<open>get\<close>), and a \<open>logged_dates\<close> field that is a number, or a list
  mixing strings and numbers, raises \<open>TypeError\<close>.
\<close>

theorem load_streak_dates_uncaught:
  "load_streak_dates None = Inr []
   \<and> load_streak_dates (Some Malformed) = Inr []
   \<and> load_streak_dates (Some (Document (PList []))) = Inl AttributeError
   \<and> load_streak_dates (Some (Document (Atom PNone))) = Inl AttributeError
   \<and> load_streak_dates (Some (Document (PDict [(''logged_dates'', Atom (PInt 5))])))
       = Inl TypeError
   \<and> load_streak_dates (Some (Document (PDict [(''logged_dates'',
         PList [Atom (PStr ''2024-01-05''), Atom (PInt 5)])]))) = Inl TypeError"
  by (simp add: load_streak_dates_def load_body_def json_load_def py_set_def py_sorted_def)

text \<open>
  C9, as the source has it: the loader sorts and deduplicates the stored strings, not the
  dates they write. Whenever \<open>load_streak_dates\<close> returns a list, the list is strictly
  ascending in Python's order, hence sorted with no duplicate element; for a record whose
  \<open>logged_dates\<close> field holds any list of strings, unsorted or with duplicates, it returns
  exactly those strings deduplicated and sorted; and if the returned strings are all
  zero-padded, as the app writes them, and \<open>strptime\<close> accepts them, then their dates are
  sorted ascending with no duplicate date.
\<close>

theorem load_sorted_distinct:
  "(load_streak_dates st = Inr xs \<longrightarrow> sorted_wrt py_less xs \<and> distinct xs)
   \<and> load_streak_dates (Some (dump_dates (map PStr strs)))
       = Inr (map PStr (sort (remdups strs)))
   \<and> (load_streak_dates st = Inr (map PStr zs) \<and> list_all zero_padded zs
        \<and> parse_dates (map PStr zs) = Inr ds
      \<longrightarrow> sorted ds \<and> distinct ds)"
proof (intro conjI impI)
  assume "load_streak_dates st = Inr xs"
  then show "sorted_wrt py_less xs" by (rule load_ascending)
  then show "distinct xs" by (rule irrefl_sorted_wrt_distinct) (rule py_less_irrefl)
next
  show "load_streak_dates (Some (dump_dates (map PStr strs)))
       = Inr (map PStr (sort (remdups strs)))"
    by (rule load_dump_strs)
next
  assume a: "load_streak_dates st = Inr (map PStr zs) \<and> list_all zero_padded zs
        \<and> parse_dates (map PStr zs) = Inr ds"
  then have l: "load_streak_dates st = Inr (map PStr zs)" and z: "list_all zero_padded zs"
    and p: "parse_dates (map PStr zs) = Inr ds" by simp_all
  from l have "sorted_wrt py_less (map PStr zs)" by (rule load_ascending)
  then have "sorted_wrt (<) zs" by (simp only: ascending_strs)
  from this z p have "sorted_wrt (<) ds" by (rule parse_dates_padded_ascending)
  then show "sorted ds" "distinct ds" by (simp_all add: strict_sorted_iff)
qed

theorem load_sorted_distinct_witness:
  "load_streak_dates (Some (dump_dates
       [PStr ''2024-01-05'', PStr ''2024-01-03'', PStr ''2024-01-05'']))
     = Inr [PStr ''2024-01-03'', PStr ''2024-01-05'']
   \<and> sorted_wrt py_less [PStr ''2024-01-03'', PStr ''2024-01-05'']
   \<and> distinct [PStr ''2024-01-03'', PStr ''2024-01-05'']
   \<and> list_all zero_padded [''2024-01-03'', ''2024-01-05'']
   \<and> parse_dates [PStr ''2024-01-03'', PStr ''2024-01-05''] = Inr [738888, 738890]
   \<and> sorted [738888, 738890 :: date] \<and> distinct [738888, 738890 :: date]"
proof -
  let ?st = "Some (dump_dates [PStr ''2024-01-05'', PStr ''2024-01-03'', PStr ''2024-01-05''])"
  let ?xs = "[PStr ''2024-01-03'', PStr ''2024-01-05'']"
  let ?zs = "[''2024-01-03'', ''2024-01-05'']"
  have val: "load_streak_dates ?st = Inr ?xs" by code_simp
  have pad: "list_all zero_padded ?zs" by code_simp
  have dates: "parse_dates ?xs = Inr [738888, 738890]" by code_simp
  from val have val': "load_streak_dates ?st = Inr (map PStr ?zs)" by simp
  from dates have dates': "parse_dates (map PStr ?zs) = Inr [738888, 738890]" by simp
  from load_sorted_distinct [of ?st ?xs _ ?zs "[738888, 738890]"] val val' pad dates'
  have "sorted_wrt py_less ?xs \<and> distinct ?xs"
    and "sorted [738888, 738890 :: date] \<and> distinct [738888, 738890 :: date]"
    by blast+
  with val pad dates show ?thesis by blast
qed

text \<open>
  C9 as the specification words it fails: the stored strings \<open>2024-1-5\<close>, \<open>2024-01-06\<close>,
  \<open>2024-01-05\<close> are three different strings, all of which \<open>strptime\<close> accepts; the loader
  returns them in the order of the strings, and the first and the last of the returned
  sequence are the same date, so that the sequence holds a date twice and is not ascending
  as a sequence of dates.
\<close>

theorem load_duplicate_date_counterexample:
  "load_streak_dates (Some (dump_dates
       [PStr ''2024-1-5'', PStr ''2024-01-06'', PStr ''2024-01-05'']))
     = Inr [PStr ''2024-01-05'', PStr ''2024-01-06'', PStr ''2024-1-5'']
   \<and> parse_dates [PStr ''2024-01-05'', PStr ''2024-01-06'', PStr ''2024-1-5'']
     = Inr [738890, 738891, 738890]
   \<and> \<not> distinct [738890, 738891, 738890 :: date]
   \<and> \<not> sorted [738890, 738891, 738890 :: date]"
proof -
  have "load_streak_dates (Some (dump_dates
       [PStr ''2024-1-5'', PStr ''2024-01-06'', PStr ''2024-01-05'']))
     = Inr [PStr ''2024-01-05'', PStr ''2024-01-06'', PStr ''2024-1-5'']"
    by code_simp
  moreover have "parse_dates [PStr ''2024-01-05'', PStr ''2024-01-06'', PStr ''2024-1-5'']
     = Inr [738890, 738891, 738890]"
    by code_simp
  ultimately show ?thesis by simp
qed



section \<open>Properties of the streaks\<close>

subsection \<open>Runs of logged days\<close>

lemma all_logged_iff: "all_logged D d n \<longleftrightarrow> (\<forall>i<n. d + int i \<in> D)"
  by (auto simp: all_logged_def)

lemma all_logged_0: "all_logged D d 0"
  by (simp add: all_logged_def)

lemma all_logged_mono: "all_logged D d n \<Longrightarrow> D \<subseteq> E \<Longrightarrow> all_logged E d n"
  by (auto simp: all_logged_def)

lemma all_logged_interval_bound:
  assumes "all_logged {l..u} d n"
  shows "int n \<le> max 0 (u - l + 1)"
proof (cases n)
  case 0
  then show ?thesis by simp
next
  case (Suc k)
  from assms Suc have "d + int 0 \<in> {l..u}" and "d + int k \<in> {l..u}"
    by (auto simp: all_logged_iff)
  then show ?thesis using Suc by simp
qed

lemma all_logged_interval: "all_logged {a - int n + 1..a} (a - int n + 1) n"
  by (auto simp: all_logged_iff)

lemma all_logged_gap:
  assumes "all_logged D d n" and "g \<notin> D"
  shows "d + int n \<le> g \<or> g < d"
proof (rule ccontr)
  assume "\<not> (d + int n \<le> g \<or> g < d)"
  then have "d \<le> g" "g < d + int n" by auto
  then have "nat (g - d) < n" "d + int (nat (g - d)) = g" by auto
  with assms(1) have "g \<in> D" by (auto simp: all_logged_iff)
  with assms(2) show False by simp
qed

lemma all_logged_split:
  assumes run: "all_logged (A \<union> B) d n" and gap: "g \<notin> A \<union> B"
    and A: "\<forall>x\<in>A. x < g" and B: "\<forall>x\<in>B. g < x"
  shows "all_logged A d n \<or> all_logged B d n"
proof -
  from all_logged_gap [OF run gap] show ?thesis
  proof
    assume "d + int n \<le> g"
    then have "\<forall>i<n. d + int i \<notin> B" using B by fastforce
    with run show ?thesis by (auto simp: all_logged_iff)
  next
    assume "g < d"
    then have "\<forall>i<n. d + int i \<notin> A" using A by fastforce
    with run show ?thesis by (auto simp: all_logged_iff)
  qed
qed

lemma streak_scan_correct:
  assumes "sorted_wrt (<) (a # rest)" and "1 \<le> cur"
    and "streak_scan (a # rest) longest cur = (l', c')"
  shows "longest \<le> max l' c'
    \<and> (\<forall>d n. all_logged ({a - int cur + 1..a} \<union> set rest) d n \<longrightarrow> n \<le> max l' c')
    \<and> (max l' c' = longest \<or> (\<exists>d. all_logged ({a - int cur + 1..a} \<union> set rest) d (max l' c')))"
  using assms
proof (induction rest arbitrary: a cur longest)
  case Nil
  then have eq: "l' = longest" "c' = cur" by auto
  have bound: "n \<le> max longest cur" if "all_logged ({a - int cur + 1..a} \<union> set []) d n" for d n
  proof -
    from that have "all_logged {a - int cur + 1..a} d n" by simp
    from all_logged_interval_bound [OF this] show ?thesis by simp
  qed
  have ex: "max longest cur = longest
      \<or> (\<exists>d. all_logged ({a - int cur + 1..a} \<union> set []) d (max longest cur))"
  proof (cases "cur \<le> longest")
    case True
    then show ?thesis by simp
  next
    case False
    then have "max longest cur = cur" by simp
    moreover have "all_logged ({a - int cur + 1..a} \<union> set []) (a - int cur + 1) cur"
      using all_logged_interval [of a cur] by simp
    ultimately show ?thesis by auto
  qed
  from bound ex show ?case unfolding eq by auto
next
  case (Cons b rest)
  let ?S = "{a - int cur + 1..a} \<union> set (b # rest)"
  from Cons.prems(1) have ab: "a < b" and sorted: "sorted_wrt (<) (b # rest)"
    and above: "\<forall>x\<in>set rest. b < x" by auto
  show ?case
  proof (cases "b - a = 1")
    case True
    with Cons.prems(3) have scan: "streak_scan (b # rest) longest (cur + 1) = (l', c')"
      by simp
    have S: "{b - int (cur + 1) + 1..b} \<union> set rest = ?S"
      using True by auto
    from Cons.IH [OF sorted _ scan] Cons.prems(2) show ?thesis
      unfolding S by simp
  next
    case False
    with Cons.prems(3) have scan: "streak_scan (b # rest) (max longest cur) 1 = (l', c')"
      by simp
    from Cons.IH [OF sorted _ scan]
    have ih1: "max longest cur \<le> max l' c'"
      and ih2: "\<And>d n. all_logged ({b..b} \<union> set rest) d n \<Longrightarrow> n \<le> max l' c'"
      and ih3: "max l' c' = max longest cur \<or> (\<exists>d. all_logged ({b..b} \<union> set rest) d (max l' c'))"
      by simp_all
    have S: "?S = {a - int cur + 1..a} \<union> ({b..b} \<union> set rest)" by auto
    have gap: "a + 1 \<notin> {a - int cur + 1..a} \<union> ({b..b} \<union> set rest)"
      using ab False above by auto
    have bound: "n \<le> max l' c'" if run: "all_logged ?S d n" for d n
    proof -
      from run have r: "all_logged ({a - int cur + 1..a} \<union> ({b..b} \<union> set rest)) d n"
        unfolding S .
      have lo: "\<forall>x\<in>{a - int cur + 1..a}. x < a + 1" by simp
      have hi: "\<forall>x\<in>{b..b} \<union> set rest. a + 1 < x"
        using ab False above by auto
      from all_logged_split [OF r gap lo hi]
      have "all_logged {a - int cur + 1..a} d n \<or> all_logged ({b..b} \<union> set rest) d n" .
      then show ?thesis
      proof
        assume "all_logged {a - int cur + 1..a} d n"
        from all_logged_interval_bound [OF this] have "n \<le> cur" by simp
        with ih1 show ?thesis by simp
      next
        assume "all_logged ({b..b} \<union> set rest) d n"
        then show ?thesis by (rule ih2)
      qed
    qed
    have ex: "max l' c' = longest \<or> (\<exists>d. all_logged ?S d (max l' c'))"
    proof -
      from ih3 show ?thesis
      proof
        assume m: "max l' c' = max longest cur"
        show ?thesis
        proof (cases "cur \<le> longest")
          case True
          with m show ?thesis by simp
        next
          case False
          with m have "max l' c' = cur" by simp
          moreover have "all_logged ?S (a - int cur + 1) cur"
            by (rule all_logged_mono [OF all_logged_interval]) auto
          ultimately show ?thesis by auto
        qed
      next
        assume "\<exists>d. all_logged ({b..b} \<union> set rest) d (max l' c')"
        then obtain d where "all_logged ({b..b} \<union> set rest) d (max l' c')" ..
        then have "all_logged ?S d (max l' c')"
          by (rule all_logged_mono) auto
        then show ?thesis by auto
      qed
    qed
    from ih1 bound ex show ?thesis by auto
  qed
qed

subsection \<open>The scan computes the longest run\<close>

lemma parse_dates_length: "parse_dates js = Inr ds \<Longrightarrow> length ds = length js"
  by (induction js arbitrary: ds) (auto split: sum.splits)

lemma all_logged_empty: "all_logged {} d n \<Longrightarrow> n = 0"
  by (cases n) (auto simp: all_logged_iff)

lemma longest_streak_of_dates:
  assumes ne: "ds \<noteq> []"
    and scan: "streak_scan (sort (remdups ds)) 0 1 = (l', c')"
  shows "(\<exists>d. all_logged (set ds) d (max l' c'))
    \<and> (\<forall>d n. all_logged (set ds) d n \<longrightarrow> n \<le> max l' c')"
proof -
  from ne have "sort (remdups ds) \<noteq> []"
    by (metis set_empty set_remdups set_sort)
  then obtain a rest where ar: "sort (remdups ds) = a # rest"
    by (cases "sort (remdups ds)") auto
  have "sorted_wrt (<) (sort (remdups ds))"
    by (simp add: strict_sorted_iff)
  with ar have sorted: "sorted_wrt (<) (a # rest)" by simp
  have "set (a # rest) = set ds"
    using ar by (metis set_remdups set_sort)
  then have S: "{a - int 1 + 1..a} \<union> set rest = set ds" by auto
  from scan ar have scan': "streak_scan (a # rest) 0 1 = (l', c')" by simp
  from streak_scan_correct [OF sorted _ scan'] S
  have "(\<forall>d n. all_logged (set ds) d n \<longrightarrow> n \<le> max l' c')"
    and "max l' c' = 0 \<or> (\<exists>d. all_logged (set ds) d (max l' c'))"
    by simp_all
  then show ?thesis using all_logged_0 by metis
qed

lemma longest_streak_char:
  assumes "parse_dates js = Inr ds"
  shows "\<exists>L. calculate_longest_streak js = Inr L
    \<and> (\<exists>d. all_logged (set ds) d L)
    \<and> (\<forall>d n. all_logged (set ds) d n \<longrightarrow> n \<le> L)"
proof (cases "js = []")
  case True
  with assms have "ds = []" by simp
  with True show ?thesis
    by (auto simp: calculate_longest_streak_def all_logged_0 dest: all_logged_empty)
next
  case False
  with parse_dates_length [OF assms] have ne: "ds \<noteq> []" by auto
  obtain l' c' where scan: "streak_scan (sort (remdups ds)) 0 1 = (l', c')"
    by (cases "streak_scan (sort (remdups ds)) 0 1") auto
  from False assms scan have "calculate_longest_streak js = Inr (max l' c')"
    by (simp add: calculate_longest_streak_def)
  with longest_streak_of_dates [OF ne scan] show ?thesis by simp
qed

lemma streak_loop_sound:
  "streak_loop ds c acc = Inr r \<Longrightarrow>
     \<exists>n. r = acc + n \<and> (\<forall>i<n. c - int i \<in> set ds) \<and> c - int n \<notin> set ds"
proof (induction ds c acc arbitrary: r rule: streak_loop.induct)
  case (1 ds c acc)
  show ?case
  proof (cases "c \<in> set ds")
    case False
    with "1.prems" have "r = acc" by (simp add: streak_loop.simps [of ds c acc])
    with False show ?thesis by auto
  next
    case True
    with "1.prems" obtain d where d: "minus_one_day c = Inr d"
      and loop: "streak_loop ds d (acc + 1) = Inr r"
      by (auto simp: streak_loop.simps [of ds c acc] split: sum.splits)
    from d have dc: "d = c - 1"
      by (auto simp: minus_one_day_def split: if_splits)
    from "1.IH" [OF True d loop] obtain n
      where n: "r = acc + 1 + n" "\<forall>i<n. d - int i \<in> set ds" "d - int n \<notin> set ds"
      by auto
    have "c - int i \<in> set ds" if "i < Suc n" for i
    proof (cases i)
      case 0
      with True show ?thesis by simp
    next
      case (Suc j)
      with that n(2) have "d - int j \<in> set ds" by simp
      moreover have "c - int i = d - int j" using Suc dc by simp
      ultimately show ?thesis by simp
    qed
    moreover have "c - int (Suc n) \<notin> set ds"
      using n(3) dc by (simp add: algebra_simps)
    moreover have "r = acc + Suc n" using n(1) by simp
    ultimately show ?thesis by blast
  qed
qed

lemma streak_loop_returns:
  "date_min \<le> m \<Longrightarrow> m \<le> c \<Longrightarrow> m \<notin> set ds \<Longrightarrow> \<exists>r. streak_loop ds c acc = Inr r"
proof (induction ds c acc rule: streak_loop.induct)
  case (1 ds c acc)
  show ?case
  proof (cases "c \<in> set ds")
    case False
    then show ?thesis by (simp add: streak_loop.simps [of ds c acc])
  next
    case True
    with "1.prems" have "m < c" by (cases "m = c") auto
    with "1.prems"(1) have d: "minus_one_day c = Inr (c - 1)"
      by (simp add: minus_one_day_def)
    from "1.IH" [OF True d "1.prems"(1) _ "1.prems"(3)] \<open>m < c\<close>
    obtain r where "streak_loop ds (c - 1) (acc + 1) = Inr r" by auto
    with True d show ?thesis by (simp add: streak_loop.simps [of ds c acc])
  qed
qed

lemma streak_loop_le_longest:
  assumes loop: "streak_loop ds c 0 = Inr n"
    and bound: "\<forall>d k. all_logged (set ds) d k \<longrightarrow> k \<le> L"
  shows "n \<le> L"
proof -
  from streak_loop_sound [OF loop] have run: "\<forall>i<n. c - int i \<in> set ds" by auto
  have "all_logged (set ds) (c - int n + 1) n"
    unfolding all_logged_iff
  proof (intro allI impI)
    fix i assume "i < n"
    define k where "k = n - 1 - i"
    from \<open>i < n\<close> have k: "k < n" "int k = int n - 1 - int i"
      unfolding k_def by linarith+
    from run k(1) have "c - int k \<in> set ds" by blast
    moreover from k(2) have "c - int k = c - int n + 1 + int i" by linarith
    ultimately show "c - int n + 1 + int i \<in> set ds" by (simp only:)
  qed
  with bound show ?thesis by blast
qed

subsection \<open>The current streak\<close>

lemma count_from_char:
  assumes parse: "parse_dates js = Inr ds"
    and m: "date_min \<le> m" "m \<le> c" "m \<notin> set ds"
  shows "\<exists>n L. count_from js ds c = Inr (n, L) \<and> calculate_longest_streak js = Inr L
     \<and> streak_ending_at (set ds) c n \<and> n \<le> L"
proof -
  from streak_loop_returns [OF m] obtain n where loop: "streak_loop ds c 0 = Inr n"
    by blast
  from longest_streak_char [OF parse] obtain L
    where L: "calculate_longest_streak js = Inr L"
      and bound: "\<forall>d k. all_logged (set ds) d k \<longrightarrow> k \<le> L"
    by blast
  from streak_loop_sound [OF loop] have "streak_ending_at (set ds) c n"
    by (auto simp: streak_ending_at_def)
  moreover from streak_loop_le_longest [OF loop bound] have "n \<le> L" .
  moreover from loop L have "count_from js ds c = Inr (n, L)"
    by (simp add: count_from_def)
  ultimately show ?thesis using L by blast
qed

lemma current_streak_char:
  assumes load: "load_streak_dates st = Inr js"
    and parse: "parse_dates js = Inr ds"
    and m: "date_min \<le> m" "m < today" "m \<notin> set ds"
  shows "\<exists>c L. calculate_current_streak st today = Inr (c, L)
     \<and> calculate_longest_streak js = Inr L
     \<and> (today \<in> set ds \<longrightarrow> streak_ending_at (set ds) today c)
     \<and> (today \<notin> set ds \<and> today - 1 \<in> set ds \<longrightarrow> streak_ending_at (set ds) (today - 1) c)
     \<and> (today \<notin> set ds \<and> today - 1 \<notin> set ds \<longrightarrow> c = 0)
     \<and> c \<le> L"
proof (cases "js = []")
  case True
  with load parse show ?thesis
    by (auto simp: calculate_current_streak_def calculate_longest_streak_def)
next
  case False
  from m have y: "minus_one_day today = Inr (today - 1)"
    by (simp add: minus_one_day_def)
  consider (today) "today \<in> set ds"
    | (yesterday) "today \<notin> set ds" "today - 1 \<in> set ds"
    | (neither) "today \<notin> set ds" "today - 1 \<notin> set ds"
    by blast
  then show ?thesis
  proof cases
    case today
    from m have "m \<le> today" by simp
    from count_from_char [OF parse m(1) this m(3)] obtain n L
      where "count_from js ds today = Inr (n, L)" "calculate_longest_streak js = Inr L"
        "streak_ending_at (set ds) today n" "n \<le> L"
      by blast
    with load parse False y today show ?thesis
      by (simp add: calculate_current_streak_def)
  next
    case yesterday
    from m have "m \<le> today - 1" by simp
    from count_from_char [OF parse m(1) this m(3)] obtain n L
      where "count_from js ds (today - 1) = Inr (n, L)" "calculate_longest_streak js = Inr L"
        "streak_ending_at (set ds) (today - 1) n" "n \<le> L"
      by blast
    with load parse False y yesterday show ?thesis
      by (simp add: calculate_current_streak_def)
  next
    case neither
    from longest_streak_char [OF parse] obtain L
      where "calculate_longest_streak js = Inr L" by blast
    with load parse False y neither show ?thesis
      by (simp add: calculate_current_streak_def)
  qed
qed

lemma count_from_le:
  assumes parse: "parse_dates js = Inr ds" and cf: "count_from js ds c = Inr (n, L)"
  shows "n \<le> L"
proof -
  from cf have loop: "streak_loop ds c 0 = Inr n" and L: "calculate_longest_streak js = Inr L"
    by (auto simp: count_from_def split: sum.splits)
  from longest_streak_char [OF parse] L
  have "\<forall>d k. all_logged (set ds) d k \<longrightarrow> k \<le> L" by auto
  from streak_loop_le_longest [OF loop this] show ?thesis .
qed

lemma current_streak_le_longest:
  assumes "calculate_current_streak st today = Inr (c, L)"
  shows "c \<le> L"
proof -
  from assms obtain js where load: "load_streak_dates st = Inr js"
    by (auto simp: calculate_current_streak_def split: sum.splits)
  show ?thesis
  proof (cases "js = []")
    case True
    with assms load show ?thesis by (simp add: calculate_current_streak_def)
  next
    case False
    with assms load obtain ds y where parse: "parse_dates js = Inr ds"
      and y: "minus_one_day today = Inr y"
      by (auto simp: calculate_current_streak_def split: sum.splits)
    from assms load False parse y
    have "count_from js ds today = Inr (c, L) \<or> count_from js ds y = Inr (c, L) \<or> c = 0"
      by (auto simp: calculate_current_streak_def split: if_splits sum.splits)
    with count_from_le [OF parse] show ?thesis by auto
  qed
qed

subsection \<open>The claims on streaks\<close>

text \<open>
  C2: for every list of date strings that parse, to the dates \<open>ds\<close>, \<open>calculate_longest_streak\<close>
  returns the length of the longest run of calendar-consecutive dates in the set of \<open>ds\<close>:
  some run of that length lies in the set, and no run in the set is longer. The empty list
  gives 0, and the dates 2024-01-01, 2024-01-02, 2024-01-03, 2024-01-10 give 3.
\<close>

theorem longest_streak_spec:
  "(parse_dates js = Inr ds \<longrightarrow>
      (\<exists>L. calculate_longest_streak js = Inr L
         \<and> (\<exists>d. all_logged (set ds) d L)
         \<and> (\<forall>d n. all_logged (set ds) d n \<longrightarrow> n \<le> L)))
   \<and> calculate_longest_streak [] = Inr 0
   \<and> calculate_longest_streak
        [PStr ''2024-01-01'', PStr ''2024-01-02'', PStr ''2024-01-03'', PStr ''2024-01-10'']
       = Inr 3"
proof (intro conjI impI)
  assume "parse_dates js = Inr ds"
  then show "\<exists>L. calculate_longest_streak js = Inr L
         \<and> (\<exists>d. all_logged (set ds) d L)
         \<and> (\<forall>d n. all_logged (set ds) d n \<longrightarrow> n \<le> L)"
    by (rule longest_streak_char)
next
  show "calculate_longest_streak [] = Inr 0"
    by (simp add: calculate_longest_streak_def)
next
  show "calculate_longest_streak
        [PStr ''2024-01-01'', PStr ''2024-01-02'', PStr ''2024-01-03'', PStr ''2024-01-10'']
       = Inr 3"
    by code_simp
qed

theorem longest_streak_spec_witness:
  "parse_dates [PStr ''2024-01-10'', PStr ''2024-01-02'', PStr ''2024-01-01'',
       PStr ''2024-01-03'', PStr ''2024-01-02'']
     = Inr [738895, 738887, 738886, 738888, 738887]
   \<and> calculate_longest_streak [PStr ''2024-01-10'', PStr ''2024-01-02'', PStr ''2024-01-01'',
       PStr ''2024-01-03'', PStr ''2024-01-02''] = Inr 3
   \<and> (\<exists>d. all_logged (set [738895, 738887, 738886, 738888, 738887]) d 3)"
proof -
  let ?js = "[PStr ''2024-01-10'', PStr ''2024-01-02'', PStr ''2024-01-01'',
       PStr ''2024-01-03'', PStr ''2024-01-02'']"
  let ?ds = "[738895, 738887, 738886, 738888, 738887] :: date list"
  have parse: "parse_dates ?js = Inr ?ds" by code_simp
  have val: "calculate_longest_streak ?js = Inr 3" by code_simp
  from longest_streak_spec [of ?js ?ds] parse obtain L
    where "calculate_longest_streak ?js = Inr L" "\<exists>d. all_logged (set ?ds) d L"
    by blast
  with val have "\<exists>d. all_logged (set ?ds) d 3" by simp
  with parse val show ?thesis by blast
qed

text \<open>
  C1: let the file load to strings that parse to the dates \<open>ds\<close>, and let some calendar day
  before today be missing from them (so that counting backward meets a first missing day).
  Then \<open>calculate_current_streak\<close> returns a pair whose second component is the longest
  streak of the same strings, and whose first component is: the number of consecutive days
  ending at today that are all present, if today is present; that number counted from
  yesterday, if today is absent and yesterday present; and 0 if neither is present. In
  particular, for today = 2024-01-05 and the stored dates 2024-01-03 and 2024-01-04 the result
  is (2, 2).
\<close>

theorem current_streak_spec:
  "(load_streak_dates st = Inr js \<and> parse_dates js = Inr ds
      \<and> (\<exists>m. date_min \<le> m \<and> m < today \<and> m \<notin> set ds) \<longrightarrow>
      (\<exists>c L. calculate_current_streak st today = Inr (c, L)
         \<and> calculate_longest_streak js = Inr L
         \<and> (today \<in> set ds \<longrightarrow> streak_ending_at (set ds) today c)
         \<and> (today \<notin> set ds \<and> today - 1 \<in> set ds
              \<longrightarrow> streak_ending_at (set ds) (today - 1) c)
         \<and> (today \<notin> set ds \<and> today - 1 \<notin> set ds \<longrightarrow> c = 0)))
   \<and> calculate_current_streak
        (Some (Document (PDict [(''logged_dates'',
           PList [Atom (PStr ''2024-01-03''), Atom (PStr ''2024-01-04'')])])))
        (ymd2ord 2024 1 5) = Inr (2, 2)"
proof (intro conjI impI)
  assume "load_streak_dates st = Inr js \<and> parse_dates js = Inr ds
      \<and> (\<exists>m. date_min \<le> m \<and> m < today \<and> m \<notin> set ds)"
  then obtain m where "load_streak_dates st = Inr js" "parse_dates js = Inr ds"
    "date_min \<le> m" "m < today" "m \<notin> set ds" by blast
  from current_streak_char [OF this]
  show "\<exists>c L. calculate_current_streak st today = Inr (c, L)
         \<and> calculate_longest_streak js = Inr L
         \<and> (today \<in> set ds \<longrightarrow> streak_ending_at (set ds) today c)
         \<and> (today \<notin> set ds \<and> today - 1 \<in> set ds
              \<longrightarrow> streak_ending_at (set ds) (today - 1) c)
         \<and> (today \<notin> set ds \<and> today - 1 \<notin> set ds \<longrightarrow> c = 0)"
    by blast
next
  show "calculate_current_streak
        (Some (Document (PDict [(''logged_dates'',
           PList [Atom (PStr ''2024-01-03''), Atom (PStr ''2024-01-04'')])])))
        (ymd2ord 2024 1 5) = Inr (2, 2)"
    by code_simp
qed

theorem current_streak_spec_witness:
  "load_streak_dates (Some (Document (PDict [(''logged_dates'',
       PList [Atom (PStr ''2024-01-04''), Atom (PStr ''2024-01-02''),
              Atom (PStr ''2024-01-03''), Atom (PStr ''2023-12-25'')])])))
     = Inr [PStr ''2023-12-25'', PStr ''2024-01-02'', PStr ''2024-01-03'', PStr ''2024-01-04'']
   \<and> parse_dates
        [PStr ''2023-12-25'', PStr ''2024-01-02'', PStr ''2024-01-03'', PStr ''2024-01-04'']
     = Inr [738879, 738887, 738888, 738889]
   \<and> calculate_current_streak (Some (Document (PDict [(''logged_dates'',
       PList [Atom (PStr ''2024-01-04''), Atom (PStr ''2024-01-02''),
              Atom (PStr ''2024-01-03''), Atom (PStr ''2023-12-25'')])]))) 738889
     = Inr (3, 3)
   \<and> streak_ending_at (set [738879, 738887, 738888, 738889]) 738889 3"
proof -
  let ?st = "Some (Document (PDict [(''logged_dates'',
       PList [Atom (PStr ''2024-01-04''), Atom (PStr ''2024-01-02''),
              Atom (PStr ''2024-01-03''), Atom (PStr ''2023-12-25'')])]))"
  let ?js = "[PStr ''2023-12-25'', PStr ''2024-01-02'', PStr ''2024-01-03'', PStr ''2024-01-04'']"
  let ?ds = "[738879, 738887, 738888, 738889] :: date list"
  have load: "load_streak_dates ?st = Inr ?js" by code_simp
  have parse: "parse_dates ?js = Inr ?ds" by code_simp
  have val: "calculate_current_streak ?st 738889 = Inr (3, 3)" by code_simp
  have missing: "\<exists>m. date_min \<le> m \<and> m < 738889 \<and> m \<notin> set ?ds"
    by (rule exI [of _ 1]) (simp add: date_min_def)
  from current_streak_spec [of ?st ?js ?ds 738889] load parse missing obtain c L
    where "calculate_current_streak ?st 738889 = Inr (c, L)"
      "738889 \<in> set ?ds \<longrightarrow> streak_ending_at (set ?ds) 738889 c"
    by blast
  with val have "streak_ending_at (set ?ds) 738889 3" by simp
  with load parse val show ?thesis by blast
qed

text \<open>
  C10: whenever \<open>calculate_current_streak\<close> returns a pair, its current streak is at most its
  longest streak; and it does return a pair when the file loads to strings that parse to
  dates of which some calendar day before today is missing.
\<close>

theorem current_le_longest:
  "(calculate_current_streak st today = Inr (c, L) \<longrightarrow> c \<le> L)
   \<and> (load_streak_dates st = Inr js \<and> parse_dates js = Inr ds
        \<and> (\<exists>m. date_min \<le> m \<and> m < today \<and> m \<notin> set ds) \<longrightarrow>
        (\<exists>c' L'. calculate_current_streak st today = Inr (c', L') \<and> c' \<le> L'))"
proof (intro conjI impI)
  assume "calculate_current_streak st today = Inr (c, L)"
  then show "c \<le> L" by (rule current_streak_le_longest)
next
  assume "load_streak_dates st = Inr js \<and> parse_dates js = Inr ds
        \<and> (\<exists>m. date_min \<le> m \<and> m < today \<and> m \<notin> set ds)"
  then obtain m where "load_streak_dates st = Inr js" "parse_dates js = Inr ds"
    "date_min \<le> m" "m < today" "m \<notin> set ds" by blast
  from current_streak_char [OF this]
  show "\<exists>c' L'. calculate_current_streak st today = Inr (c', L') \<and> c' \<le> L'"
    by blast
qed

theorem current_le_longest_witness:
  "calculate_current_streak (Some (Document (PDict [(''logged_dates'',
       PList [Atom (PStr ''2024-01-01''), Atom (PStr ''2024-01-02''),
              Atom (PStr ''2024-01-03''), Atom (PStr ''2024-01-10'')])]))) 738896
     = Inr (1, 3)
   \<and> (1::nat) \<le> 3"
proof -
  let ?st = "Some (Document (PDict [(''logged_dates'',
       PList [Atom (PStr ''2024-01-01''), Atom (PStr ''2024-01-02''),
              Atom (PStr ''2024-01-03''), Atom (PStr ''2024-01-10'')])]))"
  have val: "calculate_current_streak ?st 738896 = Inr (1, 3)" by code_simp
  with current_le_longest [of ?st 738896 1 3] show ?thesis by blast
qed

end
